theory Spec2Isabelle
  imports Main
begin

section \<open>Values, dictionaries and strings\<close>

text \<open>
  The executor and the planner of \<^verbatim>\<open>agentic_ai\<close> pass Python values around: tool
  parameters, tool results and the running context are \<^verbatim>\<open>Dict[str, Any]\<close>. The values
  are modelled by a tagged union; floats do not occur in any function modelled here and are left
  out. A Python \<^verbatim>\<open>dict\<close> with string keys is an association list whose order is the
  insertion order; \<open>dict_set\<close> is \<^verbatim>\<open>d[k] = v\<close> (an existing key keeps its place, a new key
  goes to the end) and \<open>dict_update\<close> is \<^verbatim>\<open>d.update(e)\<close>.
  Strings are lists of characters with codes below 256; the character predicates below are
  those of Python on these characters.
\<close>

datatype pyval =
    PNone
  | PBool bool
  | PInt int
  | PStr string
  | PList "pyval list"
  | PDict "(string \<times> pyval) list"

type_synonym pydict = "(string \<times> pyval) list"

fun dict_set :: "'k \<Rightarrow> 'v \<Rightarrow> ('k \<times> 'v) list \<Rightarrow> ('k \<times> 'v) list" where
  "dict_set k v [] = [(k, v)]"
| "dict_set k v (p # ps) = (if fst p = k then (k, v) # ps else p # dict_set k v ps)"

definition dict_update :: "('k \<times> 'v) list \<Rightarrow> ('k \<times> 'v) list \<Rightarrow> ('k \<times> 'v) list" where
  "dict_update d e = fold (\<lambda>(k, v) acc. dict_set k v acc) e d"

text \<open>\<^verbatim>\<open>d.get(k)\<close>, with \<^verbatim>\<open>None\<close> for a missing key, and \<^verbatim>\<open>d.get(k, False)\<close>.\<close>

definition dict_get :: "pydict \<Rightarrow> string \<Rightarrow> pyval" where
  "dict_get d k = (case map_of d k of None \<Rightarrow> PNone | Some v \<Rightarrow> v)"

definition dict_get_default :: "pydict \<Rightarrow> string \<Rightarrow> pyval \<Rightarrow> pyval" where
  "dict_get_default d k dflt = (case map_of d k of None \<Rightarrow> dflt | Some v \<Rightarrow> v)"

text \<open>Python's truth value of an object, as \<^verbatim>\<open>if x:\<close> tests it.\<close>

fun truthy :: "pyval \<Rightarrow> bool" where
  "truthy PNone = False"
| "truthy (PBool b) = b"
| "truthy (PInt i) = (i \<noteq> 0)"
| "truthy (PStr s) = (s \<noteq> [])"
| "truthy (PList xs) = (xs \<noteq> [])"
| "truthy (PDict d) = (d \<noteq> [])"

definition starts_with :: "string \<Rightarrow> string \<Rightarrow> bool" where
  "starts_with p s = (take (length p) s = p)"

definition ends_with :: "string \<Rightarrow> string \<Rightarrow> bool" where
  "ends_with p s = (length p \<le> length s \<and> drop (length s - length p) s = p)"

text \<open>\<^verbatim>\<open>p in s\<close> for strings.\<close>

fun is_substring :: "string \<Rightarrow> string \<Rightarrow> bool" where
  "is_substring p [] = (p = [])"
| "is_substring p (c # cs) = (starts_with p (c # cs) \<or> is_substring p cs)"

text \<open>\<^verbatim>\<open>s.split(sep)\<close> for a separator of one character: never the empty list.\<close>

fun split_on :: "char \<Rightarrow> string \<Rightarrow> string list" where
  "split_on sep [] = [[]]"
| "split_on sep (c # cs) =
     (if c = sep then [] # split_on sep cs
      else (case split_on sep cs of [] \<Rightarrow> [[c]] | w # ws \<Rightarrow> (c # w) # ws))"

text \<open>
  \<^verbatim>\<open>str.isspace\<close> of one character below 256, which is also what \<^verbatim>\<open>\s\<close>
  matches there: tab, line feed, vertical tab, form feed, carriage return, the four separators
  \<^verbatim>\<open>0x1c\<close> to \<^verbatim>\<open>0x1f\<close>, the space, the next-line character
  \<^verbatim>\<open>0x85\<close> and the no-break space \<^verbatim>\<open>0xa0\<close>. These are the characters that
  \<^verbatim>\<open>str.strip()\<close> removes from both ends.
\<close>

definition is_space :: "char \<Rightarrow> bool" where
  "is_space c = (let n = of_char c :: nat
                 in (9 \<le> n \<and> n \<le> 13) \<or> (28 \<le> n \<and> n \<le> 32) \<or> n = 133 \<or> n = 160)"

definition strip :: "string \<Rightarrow> string" where
  "strip s = rev (dropWhile is_space (rev (dropWhile is_space s)))"

text \<open>
  \<^verbatim>\<open>s.replace(old, new)\<close>: every occurrence, left to right, without overlaps. For the empty
  \<open>old\<close> Python puts \<open>new\<close> before every character and at the end.
\<close>

function replace_all :: "string \<Rightarrow> string \<Rightarrow> string \<Rightarrow> string" where
  "replace_all old new s =
     (if old = [] then concat (map (\<lambda>c. new @ [c]) s) @ new
      else if s = [] then []
      else if starts_with old s then new @ replace_all old new (drop (length old) s)
      else hd s # replace_all old new (tl s))"
  by pat_completeness auto
termination
  by (relation "measure (\<lambda>(old, new, s). length s)") auto

section \<open>Parameter resolution of the executor\<close>

text \<open>
  \<^verbatim>\<open>Executor._get_context_value\<close>: the path is split at the dots and the context is walked
  one segment at a time; a value met on the way that is not a dict gives \<^verbatim>\<open>None\<close>.
\<close>

fun walk_path :: "string list \<Rightarrow> pyval \<Rightarrow> pyval" where
  "walk_path [] v = v"
| "walk_path (part # parts) v =
     (case v of PDict d \<Rightarrow> walk_path parts (dict_get d part) | _ \<Rightarrow> PNone)"

definition get_context_value :: "string \<Rightarrow> pydict \<Rightarrow> pyval" where
  "get_context_value path ctx = walk_path (split_on (CHR ''.'') path) (PDict ctx)"

text \<open>
  \<^verbatim>\<open>".".join(parts)\<close>: the path whose segments are \<open>parts\<close>. It serves to state how a
  path is read.
\<close>

fun dotted :: "string list \<Rightarrow> string" where
  "dotted [] = []"
| "dotted [p] = p"
| "dotted (p # q # ps) = p @ CHR ''.'' # dotted (q # ps)"

text \<open>
  \<^verbatim>\<open>re.findall(r'\{\{([^}]+)\}\}', template)\<close>: scanning from the left, a match at a position
  is two opening braces, the longest non-empty run of characters other than a closing brace, and
  two closing braces; the run is the group returned, and the scan goes on after the match.
\<close>

function template_matches :: "string \<Rightarrow> string list" where
  "template_matches s =
     (if s = [] then []
      else if starts_with ''{{'' s then
        (let body = takeWhile (\<lambda>c. c \<noteq> CHR ''}'') (drop 2 s);
             rest = dropWhile (\<lambda>c. c \<noteq> CHR ''}'') (drop 2 s)
         in if body \<noteq> [] \<and> starts_with ''}}'' rest
            then body # template_matches (drop 2 rest)
            else template_matches (tl s))
      else template_matches (tl s))"
  by pat_completeness auto
termination
proof (relation "measure length")
  fix s :: string and body rest :: string
  assume "s \<noteq> []" and "rest = dropWhile (\<lambda>c. c \<noteq> CHR ''}'') (drop 2 s)"
    and "body \<noteq> [] \<and> starts_with ''}}'' rest"
  then have "length rest \<le> length s"
    using length_dropWhile_le [of "\<lambda>c. c \<noteq> CHR ''}''" "drop 2 s"] by simp
  with \<open>s \<noteq> []\<close> show "(drop 2 rest, s) \<in> measure length"
    by (cases s) auto
qed auto

text \<open>
  \<^verbatim>\<open>Executor._resolve_template\<close>. Python's \<^verbatim>\<open>str(value)\<close> is a builtin outside the
  repository; it is the parameter \<open>str_of\<close>.
\<close>

definition resolve_template :: "(pyval \<Rightarrow> string) \<Rightarrow> string \<Rightarrow> pydict \<Rightarrow> string" where
  "resolve_template str_of template ctx =
     fold (\<lambda>m result.
             (let v = get_context_value (strip m) ctx
              in if v \<noteq> PNone then replace_all (''{{'' @ m @ ''}}'') (str_of v) result
                 else result))
          (template_matches template) template"

text \<open>
  One iteration of the loop of \<^verbatim>\<open>Executor._resolve_parameters\<close>: the value stored under
  the key. \<^verbatim>\<open>value[2:-1]\<close> drops the first two characters and the last one.
\<close>

definition resolve_value :: "(pyval \<Rightarrow> string) \<Rightarrow> pyval \<Rightarrow> pydict \<Rightarrow> pyval" where
  "resolve_value str_of v ctx =
     (case v of
        PStr s \<Rightarrow>
          (if starts_with ''${'' s \<and> ends_with ''}'' s
             then get_context_value (butlast (drop 2 s)) ctx
           else if is_substring ''{{'' s
             then PStr (resolve_template str_of s ctx)
           else PStr s)
      | _ \<Rightarrow> v)"

definition resolve_parameters :: "(pyval \<Rightarrow> string) \<Rightarrow> pydict \<Rightarrow> pydict \<Rightarrow> pydict" where
  "resolve_parameters str_of parameters ctx =
     fold (\<lambda>(key, v) resolved. dict_set key (resolve_value str_of v ctx) resolved)
          parameters []"

section \<open>Plan steps\<close>

text \<open>
  \<^verbatim>\<open>PlanStep\<close> of \<^verbatim>\<open>planner.py\<close>. The status is one of the four strings the code
  assigns; the result is \<^verbatim>\<open>None\<close> until the executor stores one.
\<close>

datatype status = Pending | InProgress | Completed | Failed

record plan_step =
  step_id :: int
  description :: string
  tool :: string
  parameters :: pydict
  dependencies :: "int list"
  status :: status
  result :: "pydict option"

section \<open>Execution order\<close>

text \<open>
  \<^verbatim>\<open>Executor._resolve_dependencies\<close>. The dict \<^verbatim>\<open>graph\<close> is built by a comprehension
  over the steps: a step identifier that occurs again keeps its first place and takes the later
  dependency list. \<^verbatim>\<open>in_degree\<close> has the keys of \<^verbatim>\<open>graph\<close> from its creation on and no
  key is added or removed afterwards, so it is a function read at these keys only; its key
  order, where the code iterates over it, is that of \<^verbatim>\<open>graph\<close>.
\<close>

definition build_graph :: "plan_step list \<Rightarrow> (int \<times> int list) list" where
  "build_graph steps = fold (\<lambda>s graph. dict_set (step_id s) (dependencies s) graph) steps []"

definition count_in_degree :: "(int \<times> int list) list \<Rightarrow> (int \<Rightarrow> int)" where
  "count_in_degree graph =
     fold (\<lambda>(sid, deps) in_degree.
             fold (\<lambda>dep ind. if dep \<in> set (map fst graph) then ind(sid := ind sid + 1) else ind)
                  deps in_degree)
          graph (\<lambda>_. 0)"

text \<open>
  The body of \<^verbatim>\<open>for other_id, deps in graph.items()\<close> inside the while loop, for the
  step \<open>sid\<close> just taken from the queue.
\<close>

definition relax :: "int \<Rightarrow> int \<times> int list \<Rightarrow> (int \<Rightarrow> int) \<times> int list \<Rightarrow> (int \<Rightarrow> int) \<times> int list" where
  "relax sid = (\<lambda>(other_id, deps) (in_degree, queue).
     if sid \<in> set deps then
       (let in_degree' = in_degree(other_id := in_degree other_id - 1)
        in if in_degree' other_id = 0 then (in_degree', queue @ [other_id])
           else (in_degree', queue))
     else (in_degree, queue))"

definition positive_keys :: "(int \<times> int list) list \<Rightarrow> (int \<Rightarrow> int) \<Rightarrow> int set" where
  "positive_keys graph in_degree = {k \<in> set (map fst graph). 0 < in_degree k}"

lemma relax_measure:
  assumes "other \<in> set graph" and "relax sid other (ind, queue) = (ind', queue')"
  shows "length queue' + card (positive_keys graph ind') \<le> length queue + card (positive_keys graph ind)"
proof -
  obtain k deps where other: "other = (k, deps)" by (cases other)
  have fin: "finite (positive_keys graph ind)" by (simp add: positive_keys_def)
  show ?thesis
  proof (cases "sid \<in> set deps")
    case False
    with assms other show ?thesis by (simp add: relax_def)
  next
    case True
    show ?thesis
    proof (cases "ind k = 1")
      case one: True
      with True assms other have eq: "ind' = ind(k := 0)" "queue' = queue @ [k]"
        by (auto simp: relax_def Let_def)
      have kin: "k \<in> positive_keys graph ind"
        using assms(1) other one by (force simp: positive_keys_def)
      have "positive_keys graph ind' = positive_keys graph ind - {k}"
        using eq by (auto simp: positive_keys_def)
      then have "card (positive_keys graph ind') = card (positive_keys graph ind) - 1"
        using kin fin by simp
      moreover have "0 < card (positive_keys graph ind)"
        using kin fin by (auto simp: card_gt_0_iff)
      ultimately show ?thesis using eq by simp
    next
      case False
      with True assms other have eq: "ind' = ind(k := ind k - 1)" "queue' = queue"
        by (auto simp: relax_def Let_def)
      have "positive_keys graph ind' \<subseteq> positive_keys graph ind"
        using eq by (auto simp: positive_keys_def)
      then have "card (positive_keys graph ind') \<le> card (positive_keys graph ind)"
        using fin by (simp add: card_mono)
      with eq show ?thesis by simp
    qed
  qed
qed

lemma fold_relax_measure:
  assumes "set others \<subseteq> set graph" and "fold (relax sid) others (ind, queue) = (ind', queue')"
  shows "length queue' + card (positive_keys graph ind') \<le> length queue + card (positive_keys graph ind)"
  using assms
proof (induction others arbitrary: ind queue)
  case Nil
  then show ?case by simp
next
  case (Cons other others)
  obtain ind1 queue1 where step: "relax sid other (ind, queue) = (ind1, queue1)"
    by (cases "relax sid other (ind, queue)")
  have "length queue1 + card (positive_keys graph ind1) \<le> length queue + card (positive_keys graph ind)"
    using relax_measure [OF _ step] Cons.prems(1) by simp
  moreover have "length queue' + card (positive_keys graph ind') \<le> length queue1 + card (positive_keys graph ind1)"
    using Cons.IH [of ind1 queue1] Cons.prems step by simp
  ultimately show ?case by linarith
qed

text \<open>
  The while loop: \<^verbatim>\<open>queue.pop(0)\<close>, the append to \<^verbatim>\<open>execution_order\<close>, the pass over
  the graph. It ends from every state, because an in-degree only goes down and so reaches zero
  at most once.
\<close>

function kahn_loop :: "(int \<times> int list) list \<Rightarrow> (int \<Rightarrow> int) \<Rightarrow> int list \<Rightarrow> int list \<Rightarrow> int list" where
  "kahn_loop graph in_degree [] execution_order = execution_order"
| "kahn_loop graph in_degree (sid # queue) execution_order =
     (case fold (relax sid) graph (in_degree, queue) of
        (in_degree', queue') \<Rightarrow> kahn_loop graph in_degree' queue' (execution_order @ [sid]))"
  by pat_completeness auto
termination
proof (relation "measure (\<lambda>(graph, ind, queue, order). length queue + card (positive_keys graph ind))")
  show "wf (measure (\<lambda>(graph, ind, queue, order). length queue + card (positive_keys graph ind)))"
    by simp
next
  fix graph :: "(int \<times> int list) list" and in_degree sid queue and execution_order :: "int list"
    and in_degree' queue'
  assume "(in_degree', queue') = fold (relax sid) graph (in_degree, queue)"
  then have "fold (relax sid) graph (in_degree, queue) = (in_degree', queue')" by simp
  from fold_relax_measure [OF subset_refl this]
  show "((graph, in_degree', queue', execution_order @ [sid]), (graph, in_degree, sid # queue, execution_order))
          \<in> measure (\<lambda>(graph, ind, queue, order). length queue + card (positive_keys graph ind))"
    by simp
qed

text \<open>
  The invariant of the while loop used below: no identifier is twice in the order built so far
  and the queue, and every identifier there has an in-degree that can no longer reach zero by
  going down.
\<close>

definition queue_inv :: "int list \<Rightarrow> (int \<Rightarrow> int) \<Rightarrow> int list \<Rightarrow> bool" where
  "queue_inv done ind queue \<longleftrightarrow> distinct (done @ queue) \<and> (\<forall>k \<in> set (done @ queue). ind k \<le> 0)"

definition kahn_order :: "plan_step list \<Rightarrow> int list" where
  "kahn_order steps =
     (let graph = build_graph steps;
          in_degree = count_in_degree graph;
          queue = filter (\<lambda>k. in_degree k = 0) (map fst graph)
      in kahn_loop graph in_degree queue [])"

definition resolve_dependencies :: "plan_step list \<Rightarrow> int list" where
  "resolve_dependencies steps =
     (let execution_order = kahn_order steps;
          remaining = filter (\<lambda>i. i \<notin> set execution_order) (map step_id steps)
      in execution_order @ remaining)"

section \<open>The executor\<close>

text \<open>
  A record of \<^verbatim>\<open>Executor.execution_history\<close>, and the exceptions of Python that the
  functions below can raise.
\<close>

record exec_record =
  rec_step_id :: int
  rec_tool :: string
  rec_parameters :: pydict
  rec_result :: pydict
  rec_status :: status

datatype py_error = StopIteration | AttributeError | RecursionError

text \<open>
  What lies outside the repository's own logic is a parameter: \<open>env_str\<close> is Python's
  \<^verbatim>\<open>str\<close>, and \<open>env_execute_tool\<close> is the call
  \<^verbatim>\<open>self.tool_registry.execute_tool(step.tool, **resolved_params)\<close> with whatever tools
  are registered. The tools act on the outside world (files, network, processes), whose state
  \<open>'w\<close> is threaded through the calls, so that a tool may answer differently each time. The
  call gives \<open>Inr\<close> of the result dict, or \<open>Inl\<close> of the message \<^verbatim>\<open>str(e)\<close> of an
  exception raised inside the \<^verbatim>\<open>try\<close> block of \<^verbatim>\<open>execute_step\<close>.
\<close>

record 'w env =
  env_str :: "pyval \<Rightarrow> string"
  env_execute_tool :: "'w \<Rightarrow> string \<Rightarrow> pydict \<Rightarrow> (string + pydict) \<times> 'w"

text \<open>
  The state that \<^verbatim>\<open>execute_plan\<close> works on: the step objects of the plan (the executor
  changes their status and result in place), the local variables \<^verbatim>\<open>context\<close> and
  \<^verbatim>\<open>results\<close>, the executor's \<^verbatim>\<open>execution_history\<close>, and the outside world.
  \<open>st_status_log\<close> is not in the source: it lists every assignment to a step's status, in
  order, and no function reads it. It serves to state what sequence of statuses a step goes
  through.
\<close>

record 'w exec_state =
  st_steps :: "plan_step list"
  st_context :: pydict
  st_results :: "(int \<times> pydict) list"
  st_history :: "exec_record list"
  st_world :: 'w
  st_status_log :: "(int \<times> status) list"

text \<open>
  A step object is reached as \<^verbatim>\<open>next(s for s in steps if s.step_id == step_id)\<close>: the
  first step with that identifier (\<open>lookup_step\<close>; \<^verbatim>\<open>None\<close> is the default of
  \<^verbatim>\<open>next\<close> in \<^verbatim>\<open>_dependencies_satisfied\<close> and the \<^verbatim>\<open>StopIteration\<close> of
  \<^verbatim>\<open>execute_plan\<close>). An assignment to one of its attributes changes that element of
  the list.
\<close>

definition lookup_step :: "int \<Rightarrow> plan_step list \<Rightarrow> plan_step option" where
  "lookup_step sid steps = find (\<lambda>s. step_id s = sid) steps"

fun update_first :: "('a \<Rightarrow> bool) \<Rightarrow> ('a \<Rightarrow> 'a) \<Rightarrow> 'a list \<Rightarrow> 'a list" where
  "update_first P f [] = []"
| "update_first P f (x # xs) = (if P x then f x # xs else x # update_first P f xs)"

definition set_status :: "int \<Rightarrow> status \<Rightarrow> 'w exec_state \<Rightarrow> 'w exec_state" where
  "set_status sid s st =
     st\<lparr>st_steps := update_first (\<lambda>x. step_id x = sid) (\<lambda>x. x\<lparr>status := s\<rparr>) (st_steps st),
        st_status_log := st_status_log st @ [(sid, s)]\<rparr>"

definition set_result :: "int \<Rightarrow> pydict \<Rightarrow> 'w exec_state \<Rightarrow> 'w exec_state" where
  "set_result sid r st =
     st\<lparr>st_steps := update_first (\<lambda>x. step_id x = sid) (\<lambda>x. x\<lparr>result := Some r\<rparr>) (st_steps st)\<rparr>"

definition succeeded :: "pydict \<Rightarrow> bool" where
  "succeeded r = truthy (dict_get_default r ''success'' (PBool False))"

text \<open>\<^verbatim>\<open>Executor.execute_step\<close>, for the step object \<open>step\<close> found by the caller.\<close>

definition execute_step :: "'w env \<Rightarrow> plan_step \<Rightarrow> 'w exec_state \<Rightarrow> pydict \<times> 'w exec_state" where
  "execute_step E step st =
     (let sid = step_id step;
          st1 = set_status sid InProgress st;
          resolved_params = resolve_parameters (env_str E) (parameters step) (st_context st1)
      in case env_execute_tool E (st_world st1) (tool step) resolved_params of
           (Inr res, w) \<Rightarrow>
             (let st2 = set_status sid (if succeeded res then Completed else Failed)
                          (st1\<lparr>st_world := w\<rparr>);
                  st3 = set_result sid res st2;
                  execution_record = \<lparr>rec_step_id = sid, rec_tool = tool step,
                     rec_parameters = resolved_params, rec_result = res,
                     rec_status = (if succeeded res then Completed else Failed)\<rparr>
              in (res, st3\<lparr>st_history := st_history st3 @ [execution_record]\<rparr>))
         | (Inl msg, w) \<Rightarrow>
             (let st2 = set_status sid Failed (st1\<lparr>st_world := w\<rparr>);
                  error_result = [(''success'', PBool False), (''error'', PStr msg),
                                  (''step_id'', PInt sid)];
                  st3 = set_result sid error_result st2;
                  execution_record = \<lparr>rec_step_id = sid, rec_tool = tool step,
                     rec_parameters = parameters step, rec_result = error_result,
                     rec_status = Failed\<rparr>
              in (error_result, st3\<lparr>st_history := st_history st3 @ [execution_record]\<rparr>)))"

text \<open>\<^verbatim>\<open>Executor._extract_context\<close>.\<close>

definition extract_context :: "pydict \<Rightarrow> pydict" where
  "extract_context res =
     (if truthy (dict_get res ''success'') then
        (let c = [];
             c = (case map_of res ''content'' of Some v \<Rightarrow> dict_set ''content'' v c | None \<Rightarrow> c);
             c = (case map_of res ''file_path'' of Some v \<Rightarrow> dict_set ''file_path'' v c | None \<Rightarrow> c);
             c = (case map_of res ''response'' of Some v \<Rightarrow> dict_set ''api_response'' v c | None \<Rightarrow> c);
             c = (case map_of res ''results'' of Some v \<Rightarrow> dict_set ''search_results'' v c | None \<Rightarrow> c);
             c = (case map_of res ''result'' of Some v \<Rightarrow> dict_set ''calculation_result'' v c | None \<Rightarrow> c)
         in c)
      else [])"

text \<open>\<^verbatim>\<open>Executor._dependencies_satisfied\<close>.\<close>

definition dependencies_satisfied :: "plan_step \<Rightarrow> plan_step list \<Rightarrow> bool" where
  "dependencies_satisfied step all_steps =
     (if dependencies step = [] then True
      else list_all (\<lambda>dep_id.
             case lookup_step dep_id all_steps of
               None \<Rightarrow> False
             | Some dep_step \<Rightarrow> status dep_step = Completed)
           (dependencies step))"

text \<open>
  The retry loop of \<^verbatim>\<open>execute_plan\<close>, from the state in which \<^verbatim>\<open>retry_count\<close> and
  \<^verbatim>\<open>result\<close> have the given values. It returns the last \<^verbatim>\<open>result\<close>, which is still
  \<^verbatim>\<open>None\<close> when the loop body never ran.
\<close>

function retry_loop ::
  "'w env \<Rightarrow> int \<Rightarrow> plan_step \<Rightarrow> int \<Rightarrow> pydict option \<Rightarrow> 'w exec_state
     \<Rightarrow> pydict option \<times> 'w exec_state" where
  "retry_loop E max_retries step retry_count res st =
     (if retry_count \<le> max_retries then
        (case execute_step E step st of
           (r, st1) \<Rightarrow>
             if succeeded r then (Some r, st1)
             else (let retry_count' = retry_count + 1;
                       st2 = (if retry_count' \<le> max_retries
                              then st1\<lparr>st_context := dict_update (st_context st1) (extract_context r)\<rparr>
                              else st1)
                   in retry_loop E max_retries step retry_count' (Some r) st2))
      else (res, st))"
  by pat_completeness auto
termination
  by (relation "measure (\<lambda>(E, max_retries, step, retry_count, res, st). nat (max_retries + 1 - retry_count))")
     auto

declare retry_loop.simps [simp del]

text \<open>Python's \<^verbatim>\<open>str\<close> of an integer, for the key \<^verbatim>\<open>f"step_{step_id}_result"\<close>.\<close>

function nat_digits :: "nat \<Rightarrow> string" where
  "nat_digits n = (if n < 10 then [''0123456789'' ! n]
                   else nat_digits (n div 10) @ [''0123456789'' ! (n mod 10)])"
  by pat_completeness auto
termination
  by (relation "measure id") auto

definition str_int :: "int \<Rightarrow> string" where
  "str_int i = (if i < 0 then CHR ''-'' # nat_digits (nat (- i)) else nat_digits (nat i))"

text \<open>
  The body of \<^verbatim>\<open>for step_id in execution_order\<close>. \<^verbatim>\<open>next\<close> without a default raises
  \<^verbatim>\<open>StopIteration\<close> when no step has the identifier, and \<^verbatim>\<open>result.get\<close> raises
  \<^verbatim>\<open>AttributeError\<close> when the retry loop never ran and \<^verbatim>\<open>result\<close> is still
  \<^verbatim>\<open>None\<close>.
\<close>

definition dependency_failure :: pydict where
  "dependency_failure = [(''success'', PBool False), (''error'', PStr ''Dependencies not satisfied'')]"

definition process_step :: "'w env \<Rightarrow> int \<Rightarrow> int \<Rightarrow> 'w exec_state \<Rightarrow> py_error + 'w exec_state" where
  "process_step E max_retries sid st =
     (case lookup_step sid (st_steps st) of
        None \<Rightarrow> Inl StopIteration
      | Some step \<Rightarrow>
          if \<not> dependencies_satisfied step (st_steps st) then
            Inr ((set_status sid Failed st)
                   \<lparr>st_results := dict_set sid dependency_failure (st_results st)\<rparr>)
          else
            (case retry_loop E max_retries step 0 None st of
               (None, st1) \<Rightarrow> Inl AttributeError
             | (Some r, st1) \<Rightarrow>
                 (let st2 = st1\<lparr>st_results := dict_set sid r (st_results st1)\<rparr>
                  in if succeeded r then
                       Inr (st2\<lparr>st_context :=
                              dict_set (''step_'' @ str_int sid @ ''_result'') (PDict r)
                                (dict_update (st_context st2) (extract_context r))\<rparr>)
                     else Inr st2)))"

fun run_order :: "'w env \<Rightarrow> int \<Rightarrow> int list \<Rightarrow> 'w exec_state \<Rightarrow> py_error + 'w exec_state" where
  "run_order E max_retries [] st = Inr st"
| "run_order E max_retries (sid # execution_order) st =
     (case process_step E max_retries sid st of
        Inl e \<Rightarrow> Inl e
      | Inr st' \<Rightarrow> run_order E max_retries execution_order st')"

text \<open>\<^verbatim>\<open>Executor._generate_summary\<close>; \<^verbatim>\<open>to_dict\<close> of a step is the step's record.\<close>

record summary =
  sm_success :: bool
  sm_total_steps :: nat
  sm_completed :: nat
  sm_failed :: nat
  sm_pending :: nat
  sm_steps :: "plan_step list"
  sm_results :: "(int \<times> pydict) list"
  sm_execution_history :: "exec_record list"

definition generate_summary :: "plan_step list \<Rightarrow> (int \<times> pydict) list \<Rightarrow> exec_record list \<Rightarrow> summary" where
  "generate_summary steps results execution_history =
     (let total_steps = length steps;
          completed = length (filter (\<lambda>s. status s = Completed) steps);
          failed = length (filter (\<lambda>s. status s = Failed) steps);
          pending = length (filter (\<lambda>s. status s = Pending) steps)
      in \<lparr>sm_success = (failed = 0), sm_total_steps = total_steps, sm_completed = completed,
          sm_failed = failed, sm_pending = pending, sm_steps = steps, sm_results = results,
          sm_execution_history = execution_history\<rparr>)"

text \<open>
  \<^verbatim>\<open>Executor.execute_plan\<close> on an executor whose history is \<open>execution_history\<close>, in the
  world \<open>w\<close>. Besides the summary it gives the final state: the step objects as the executor
  left them, the history and the world.
\<close>

definition initial_state :: "plan_step list \<Rightarrow> exec_record list \<Rightarrow> 'w \<Rightarrow> 'w exec_state" where
  "initial_state steps execution_history w =
     \<lparr>st_steps = steps, st_context = [], st_results = [], st_history = execution_history,
      st_world = w, st_status_log = []\<rparr>"

definition execute_plan ::
  "'w env \<Rightarrow> int \<Rightarrow> plan_step list \<Rightarrow> exec_record list \<Rightarrow> 'w
     \<Rightarrow> py_error + (summary \<times> 'w exec_state)" where
  "execute_plan E max_retries steps execution_history w =
     (let execution_order = resolve_dependencies steps
      in case run_order E max_retries execution_order (initial_state steps execution_history w) of
           Inl e \<Rightarrow> Inl e
         | Inr st \<Rightarrow> Inr (generate_summary (st_steps st) (st_results st) (st_history st), st))"

section \<open>Notions used to state the properties of the executor\<close>

text \<open>
  The status that \<^verbatim>\<open>execute_step\<close> gives a step for a result; the status assignments
  of a run of attempts, read off their history records; the step object after an attempt; and
  the shape of the records of one retry loop that may run \<open>n\<close> times: at most \<open>n\<close>
  records, only the last one may be a success, and \<open>n\<close> records when none is.
\<close>

definition outcome_status :: "pydict \<Rightarrow> status" where
  "outcome_status r = (if succeeded r then Completed else Failed)"

definition attempt_log :: "int \<Rightarrow> exec_record list \<Rightarrow> (int \<times> status) list" where
  "attempt_log sid recs = concat (map (\<lambda>r. [(sid, InProgress), (sid, rec_status r)]) recs)"

definition retry_shape :: "nat \<Rightarrow> exec_record list \<Rightarrow> bool" where
  "retry_shape n recs \<longleftrightarrow>
     length recs \<le> n
     \<and> (\<forall>r \<in> set (butlast recs). rec_status r = Failed)
     \<and> (\<forall>r \<in> set recs. rec_status r = Failed \<or> rec_status r = Completed)
     \<and> ((\<forall>r \<in> set recs. rec_status r = Failed) \<longrightarrow> length recs = n)"

definition step_after :: "exec_record \<Rightarrow> plan_step \<Rightarrow> plan_step" where
  "step_after r = (\<lambda>x. x\<lparr>status := rec_status r, result := Some (rec_result r)\<rparr>)"

text \<open>
  What a run shows of the step with identifier \<open>sid\<close>: its history records, its status
  assignments, and the history records that a run added to the history \<open>hist\<close> it
  started with.
\<close>

definition recs_of :: "int \<Rightarrow> exec_record list \<Rightarrow> exec_record list" where
  "recs_of sid h = filter (\<lambda>r. rec_step_id r = sid) h"

definition log_of :: "int \<Rightarrow> (int \<times> status) list \<Rightarrow> status list" where
  "log_of sid l = map snd (filter (\<lambda>e. fst e = sid) l)"

definition new_records :: "exec_record list \<Rightarrow> exec_record list \<Rightarrow> exec_record list" where
  "new_records hist h = drop (length hist) h"

text \<open>What the body of the loop leaves alone: everything about the other steps.\<close>

definition unchanged_for :: "int \<Rightarrow> 'w exec_state \<Rightarrow> 'w exec_state \<Rightarrow> bool" where
  "unchanged_for X st st' \<longleftrightarrow>
     lookup_step X (st_steps st') = lookup_step X (st_steps st)
     \<and> recs_of X (st_history st') = recs_of X (st_history st)
     \<and> log_of X (st_status_log st') = log_of X (st_status_log st)
     \<and> map_of (st_results st') X = map_of (st_results st) X"

section \<open>An example registry and example plans\<close>

text \<open>
  \<^verbatim>\<open>PlanStep.__init__\<close>: a new step is pending and has no result.
\<close>

definition PlanStep :: "int \<Rightarrow> string \<Rightarrow> string \<Rightarrow> pydict \<Rightarrow> int list \<Rightarrow> plan_step" where
  "PlanStep sid descr t ps deps =
     \<lparr>step_id = sid, description = descr, tool = t, parameters = ps, dependencies = deps,
      status = Pending, result = None\<rparr>"

text \<open>
  One possible registry and outside world, on which the executor is evaluated below. The world
  is the number of tool calls made so far. \<^verbatim>\<open>file_read\<close> never finds its file and
  raises when it is called without a \<^verbatim>\<open>file_path\<close>, \<^verbatim>\<open>api_call\<close> fails
  on every even call and succeeds on every odd one, \<^verbatim>\<open>calculate\<close> always succeeds, and
  any other name is the registry's answer for an unknown tool.
\<close>

definition read_failure :: "pyval \<Rightarrow> pydict" where
  "read_failure p = [(''success'', PBool False), (''error'', PStr ''no such file''), (''file_path'', p)]"

definition api_failure :: pydict where
  "api_failure = [(''success'', PBool False), (''error'', PStr ''timed out'')]"

definition api_success :: pydict where
  "api_success = [(''success'', PBool True), (''response'', PStr ''ok'')]"

definition example_tools :: "nat \<Rightarrow> string \<Rightarrow> pydict \<Rightarrow> (string + pydict) \<times> nat" where
  "example_tools w tool_name kwargs =
     (if tool_name = ''file_read'' then
        (case map_of kwargs ''file_path'' of
           None \<Rightarrow> (Inl ''missing argument file_path'', w + 1)
         | Some p \<Rightarrow> (Inr (read_failure p), w + 1))
      else if tool_name = ''api_call'' then
        (if even w then (Inr api_failure, w + 1) else (Inr api_success, w + 1))
      else if tool_name = ''calculate'' then
        (Inr [(''success'', PBool True), (''result'', PInt 42)], w + 1)
      else (Inr [(''success'', PBool False), (''error'', PStr ''tool not found'')], w + 1))"

definition example_env :: "nat env" where
  "example_env = \<lparr>env_str = (\<lambda>v. ''?''), env_execute_tool = example_tools\<rparr>"

text \<open>
  A plan of three steps: an API call, a file read, and a calculation that depends on the file
  read.
\<close>

definition example_plan :: "plan_step list" where
  "example_plan =
     [PlanStep 0 ''fetch'' ''api_call'' [(''url'', PStr ''http://h/'')] [],
      PlanStep 1 ''read'' ''file_read'' [(''file_path'', PStr ''notes.txt'')] [],
      PlanStep 2 ''sum'' ''calculate'' [(''expression'', PStr ''40 + 2'')] [1]]"

text \<open>The records that a run of the example plan with two retries adds to the history.\<close>

definition example_history :: "exec_record list" where
  "example_history =
     [\<lparr>rec_step_id = 0, rec_tool = ''api_call'', rec_parameters = [(''url'', PStr ''http://h/'')],
       rec_result = api_failure, rec_status = Failed\<rparr>,
      \<lparr>rec_step_id = 0, rec_tool = ''api_call'', rec_parameters = [(''url'', PStr ''http://h/'')],
       rec_result = api_success, rec_status = Completed\<rparr>,
      \<lparr>rec_step_id = 1, rec_tool = ''file_read'',
       rec_parameters = [(''file_path'', PStr ''notes.txt'')],
       rec_result = read_failure (PStr ''notes.txt''), rec_status = Failed\<rparr>,
      \<lparr>rec_step_id = 1, rec_tool = ''file_read'',
       rec_parameters = [(''file_path'', PStr ''notes.txt'')],
       rec_result = read_failure (PStr ''notes.txt''), rec_status = Failed\<rparr>,
      \<lparr>rec_step_id = 1, rec_tool = ''file_read'',
       rec_parameters = [(''file_path'', PStr ''notes.txt'')],
       rec_result = read_failure (PStr ''notes.txt''), rec_status = Failed\<rparr>]"

text \<open>
  The invariant of the while loop that ties the order to the in-degrees. For every step, the
  in-degree is the number of entries of its dependency list that name a step of the plan, less
  the number of its dependencies already taken from the queue; the steps taken or waiting in
  the queue are those whose in-degree is zero; and a step in the order comes after all its
  dependencies that are in the plan.
\<close>

definition plan_entries :: "(int \<times> int list) list \<Rightarrow> int list \<Rightarrow> nat" where
  "plan_entries graph deps = length (filter (\<lambda>d. d \<in> fst ` set graph) deps)"

definition kahn_inv :: "(int \<times> int list) list \<Rightarrow> (int \<Rightarrow> int) \<Rightarrow> int list \<Rightarrow> int list \<Rightarrow> bool" where
  "kahn_inv graph ind queue done \<longleftrightarrow>
     distinct (done @ queue) \<and> set (done @ queue) \<subseteq> fst ` set graph
     \<and> (\<forall>(k, deps) \<in> set graph.
           ind k = int (plan_entries graph deps) - int (card (set deps \<inter> set done)))
     \<and> (\<forall>k \<in> fst ` set graph. ind k = 0 \<longleftrightarrow> k \<in> set (done @ queue))
     \<and> (\<forall>pre k post deps. done = pre @ k # post \<and> (k, deps) \<in> set graph
           \<longrightarrow> set deps \<inter> fst ` set graph \<subseteq> set pre)"

text \<open>
  The records of consecutive attempts of a step in the context \<open>ctx\<close>, from the world
  \<open>w\<close> to the world \<open>w'\<close>: each record is the outcome of one call of the tool with the
  parameters resolved in \<open>ctx\<close>, made in the world that the call before it left, and
  \<open>w'\<close> is the world that the last call left.
\<close>

fun tool_calls :: "'w env \<Rightarrow> plan_step \<Rightarrow> pydict \<Rightarrow> 'w \<Rightarrow> exec_record list \<Rightarrow> 'w \<Rightarrow> bool" where
  "tool_calls E step ctx w [] w' \<longleftrightarrow> w' = w"
| "tool_calls E step ctx w (r # rs) w' \<longleftrightarrow>
     (case env_execute_tool E w (tool step)
             (resolve_parameters (env_str E) (parameters step) ctx) of
        (Inr res, w1) \<Rightarrow>
          rec_result r = res
          \<and> rec_parameters r = resolve_parameters (env_str E) (parameters step) ctx
          \<and> tool_calls E step ctx w1 rs w'
      | (Inl msg, w1) \<Rightarrow>
          rec_result r = [(''success'', PBool False), (''error'', PStr msg),
                          (''step_id'', PInt (step_id step))]
          \<and> rec_parameters r = parameters step
          \<and> tool_calls E step ctx w1 rs w')"

text \<open>The records that a run added to the history \<open>hist\<close> for the step \<open>sid\<close>.\<close>

definition run_records :: "int \<Rightarrow> exec_record list \<Rightarrow> summary \<Rightarrow> exec_record list" where
  "run_records sid hist sm = recs_of sid (new_records hist (sm_execution_history sm))"

text \<open>
  A plan with a dependency cycle and a chain: the first two steps wait for each other, the
  third waits for the fourth, which is free.
\<close>

definition cyclic_plan :: "plan_step list" where
  "cyclic_plan =
     [PlanStep 0 ''fetch'' ''api_call'' [(''url'', PStr ''http://h/'')] [1],
      PlanStep 1 ''sum'' ''calculate'' [(''expression'', PStr ''40 + 2'')] [0],
      PlanStep 2 ''sum'' ''calculate'' [(''expression'', PStr ''1 + 1'')] [3],
      PlanStep 3 ''fetch'' ''api_call'' [(''url'', PStr ''http://g/'')] []]"

text \<open>The records that a run of the cyclic plan adds to the history.\<close>

definition cyclic_history :: "exec_record list" where
  "cyclic_history =
     [\<lparr>rec_step_id = 3, rec_tool = ''api_call'', rec_parameters = [(''url'', PStr ''http://g/'')],
       rec_result = api_failure, rec_status = Failed\<rparr>,
      \<lparr>rec_step_id = 3, rec_tool = ''api_call'', rec_parameters = [(''url'', PStr ''http://g/'')],
       rec_result = api_success, rec_status = Completed\<rparr>,
      \<lparr>rec_step_id = 2, rec_tool = ''calculate'',
       rec_parameters = [(''expression'', PStr ''1 + 1'')],
       rec_result = [(''success'', PBool True), (''result'', PInt 42)],
       rec_status = Completed\<rparr>]"

section \<open>The whole-value reference form\<close>

lemma split_on_segment:
  "sep \<notin> set p \<Longrightarrow> split_on sep (p @ sep # rest) = p # split_on sep rest"
  by (induction p) auto

lemma split_on_no_sep: "sep \<notin> set s \<Longrightarrow> split_on sep s = [s]"
  by (induction s) auto

lemma split_on_dotted:
  "parts \<noteq> [] \<Longrightarrow> \<forall>p \<in> set parts. CHR ''.'' \<notin> set p \<Longrightarrow>
   split_on (CHR ''.'') (dotted parts) = parts"
  by (induction parts rule: dotted.induct) (simp_all add: split_on_no_sep split_on_segment)

lemma walk_path_append: "walk_path (pre @ post) v = walk_path post (walk_path pre v)"
proof (induction pre arbitrary: v)
  case Nil
  then show ?case by simp
next
  case (Cons p pre)
  have none: "walk_path ps PNone = PNone" for ps by (cases ps) simp_all
  show ?case
  proof (cases v)
    case (PDict d)
    with Cons show ?thesis by simp
  next
    case PNone
    then show ?thesis by (simp add: none)
  next
    case (PBool b)
    then show ?thesis by (simp add: none)
  next
    case (PInt i)
    then show ?thesis by (simp add: none)
  next
    case (PStr s)
    then show ?thesis by (simp add: none)
  next
    case (PList xs)
    then show ?thesis by (simp add: none)
  qed
qed

lemma walk_path_not_dict: "\<forall>d. v \<noteq> PDict d \<Longrightarrow> walk_path (p # ps) v = PNone"
  by (cases v) simp_all

lemma walk_path_None: "walk_path ps PNone = PNone"
  by (cases ps) simp_all

lemma shape_decompose:
  assumes "starts_with ''${'' s" and "ends_with ''}'' s"
  shows "s = ''${'' @ butlast (drop 2 s) @ ''}''"
proof -
  from assms(1) obtain rest where s: "s = CHR ''$'' # CHR ''{'' # rest"
    by (cases s; cases "tl s") (auto simp: starts_with_def)
  show ?thesis
  proof (cases rest rule: rev_cases)
    case Nil
    with s assms(2) show ?thesis by (simp add: ends_with_def)
  next
    case (snoc ys y)
    with s assms(2) have "y = CHR ''}''" by (simp add: ends_with_def)
    with s snoc show ?thesis by simp
  qed
qed

lemma resolve_value_reference:
  "resolve_value str_of (PStr (''${'' @ path @ ''}'')) ctx = get_context_value path ctx"
  by (simp add: resolve_value_def starts_with_def ends_with_def butlast_append)

lemma dict_set_new: "k \<notin> fst ` set d \<Longrightarrow> dict_set k v d = d @ [(k, v)]"
  by (induction d) auto

lemma fold_dict_set_distinct:
  "distinct (map fst ps) \<Longrightarrow> fst ` set ps \<inter> fst ` set acc = {} \<Longrightarrow>
   fold (\<lambda>(key, v) resolved. dict_set key (f v) resolved) ps acc
     = acc @ map (\<lambda>(key, v). (key, f v)) ps"
proof (induction ps arbitrary: acc)
  case Nil
  then show ?case by simp
next
  case (Cons p ps)
  obtain k v where p: "p = (k, v)" by (cases p)
  from Cons.prems p have new: "k \<notin> fst ` set acc" by auto
  have "fst ` set ps \<inter> fst ` set (acc @ [(k, f v)]) = {}"
    using Cons.prems p by auto
  with Cons.IH [of "acc @ [(k, f v)]"] Cons.prems p new show ?case
    by (simp add: dict_set_new)
qed

lemma resolve_parameters_distinct:
  "distinct (map fst params) \<Longrightarrow>
   resolve_parameters str_of params ctx
     = map (\<lambda>(key, v). (key, resolve_value str_of v ctx)) params"
  using fold_dict_set_distinct [of params "[]" "\<lambda>v. resolve_value str_of v ctx"]
  by (simp add: resolve_parameters_def)

text \<open>
  Claim C10. A string parameter value is a whole-value reference exactly when it starts with
  \<^verbatim>\<open>${\<close> and ends with \<^verbatim>\<open>}\<close>. Such a string is the prefix, a path and
  the closing brace, and it resolves to one lookup of that path, whatever the path holds. A
  string of another shape is never looked up: it is expanded as a template when it contains
  \<^verbatim>\<open>{{\<close> and passed through otherwise. The path is read at its dots: when it is
  made of the segments \<open>parts\<close>, the lookup walks through the nested mappings of the context
  one segment at a time. It gives \<^verbatim>\<open>None\<close> as soon as a segment is missing from the
  mapping reached or the value reached is not a mapping, and it gives the value found under
  the last segment otherwise. A parameter dict, whose keys are distinct, is resolved entry by
  entry, keys and order kept.
\<close>

theorem whole_value_reference:
  "(starts_with ''${'' s \<and> ends_with ''}'' s \<longrightarrow>
      s = ''${'' @ butlast (drop 2 s) @ ''}''
      \<and> resolve_value str_of (PStr s) ctx = get_context_value (butlast (drop 2 s)) ctx)
   \<and> (\<not> (starts_with ''${'' s \<and> ends_with ''}'' s) \<longrightarrow>
        resolve_value str_of (PStr s) ctx
          = (if is_substring ''{{'' s then PStr (resolve_template str_of s ctx) else PStr s))
   \<and> (parts \<noteq> [] \<and> (\<forall>p \<in> set parts. CHR ''.'' \<notin> set p) \<longrightarrow>
        resolve_value str_of (PStr (''${'' @ dotted parts @ ''}'')) ctx = walk_path parts (PDict ctx)
        \<and> (\<forall>pre p post d. parts = pre @ p # post \<and> walk_path pre (PDict ctx) = PDict d
                \<and> map_of d p = None
              \<longrightarrow> resolve_value str_of (PStr (''${'' @ dotted parts @ ''}'')) ctx = PNone)
        \<and> (\<forall>pre p post. parts = pre @ p # post \<and> (\<forall>d. walk_path pre (PDict ctx) \<noteq> PDict d)
              \<longrightarrow> resolve_value str_of (PStr (''${'' @ dotted parts @ ''}'')) ctx = PNone)
        \<and> (\<forall>pre p d v. parts = pre @ [p] \<and> walk_path pre (PDict ctx) = PDict d
                \<and> map_of d p = Some v
              \<longrightarrow> resolve_value str_of (PStr (''${'' @ dotted parts @ ''}'')) ctx = v))
   \<and> (distinct (map fst params) \<longrightarrow>
        resolve_parameters str_of params ctx
          = map (\<lambda>(key, v). (key, resolve_value str_of v ctx)) params)"
proof (intro conjI impI allI)
  show "s = ''${'' @ butlast (drop 2 s) @ ''}''"
    if "starts_with ''${'' s \<and> ends_with ''}'' s"
    using that shape_decompose by blast
  show "resolve_value str_of (PStr s) ctx = get_context_value (butlast (drop 2 s)) ctx"
    if "starts_with ''${'' s \<and> ends_with ''}'' s"
    using that by (simp add: resolve_value_def)
  show "resolve_value str_of (PStr s) ctx
          = (if is_substring ''{{'' s then PStr (resolve_template str_of s ctx) else PStr s)"
    if "\<not> (starts_with ''${'' s \<and> ends_with ''}'' s)"
    using that by (auto simp: resolve_value_def)
  show "resolve_parameters str_of params ctx
          = map (\<lambda>(key, v). (key, resolve_value str_of v ctx)) params"
    if "distinct (map fst params)"
    using that by (rule resolve_parameters_distinct)
next
  assume a: "parts \<noteq> [] \<and> (\<forall>p \<in> set parts. CHR ''.'' \<notin> set p)"
  then have "split_on (CHR ''.'') (dotted parts) = parts"
    by (intro split_on_dotted) simp_all
  then have w: "resolve_value str_of (PStr (''${'' @ dotted parts @ ''}'')) ctx
                  = walk_path parts (PDict ctx)"
    by (simp only: resolve_value_reference get_context_value_def)
  show "resolve_value str_of (PStr (''${'' @ dotted parts @ ''}'')) ctx = walk_path parts (PDict ctx)"
    by (rule w)
  show "resolve_value str_of (PStr (''${'' @ dotted parts @ ''}'')) ctx = PNone"
    if "parts = pre @ p # post \<and> walk_path pre (PDict ctx) = PDict d \<and> map_of d p = None"
    for pre p post d
    unfolding w using that by (simp add: walk_path_append dict_get_def walk_path_None)
  show "resolve_value str_of (PStr (''${'' @ dotted parts @ ''}'')) ctx = PNone"
    if "parts = pre @ p # post \<and> (\<forall>d. walk_path pre (PDict ctx) \<noteq> PDict d)"
    for pre p post
    unfolding w using that walk_path_not_dict [of "walk_path pre (PDict ctx)" p post]
    by (simp add: walk_path_append)
  show "resolve_value str_of (PStr (''${'' @ dotted parts @ ''}'')) ctx = v"
    if "parts = pre @ [p] \<and> walk_path pre (PDict ctx) = PDict d \<and> map_of d p = Some v"
    for pre p d v
    unfolding w using that by (simp add: walk_path_append dict_get_def)
qed

text \<open>
  The two strings of the claim, in a context that defines \<open>a\<close> and \<open>b\<close>, are each
  one lookup, of the paths \<^verbatim>\<open>a} and ${b\<close> and \<^verbatim>\<open>a} then {{b}\<close>, and give
  \<^verbatim>\<open>None\<close>; the same text with template braces only is expanded. A path with a dot
  is walked: \<^verbatim>\<open>${a.b}\<close> gives the value under \<open>b\<close> in the mapping under
  \<open>a\<close>, not the value of a key \<^verbatim>\<open>a.b\<close>; it gives \<^verbatim>\<open>None\<close> when \<open>a\<close>
  holds a number or when the mapping has no such key.
\<close>

theorem whole_value_reference_witness:
  "resolve_value (\<lambda>v. ''?'') (PStr ''${a} and ${b}'') [(''a'', PStr ''x''), (''b'', PStr ''y'')]
     = get_context_value ''a} and ${b'' [(''a'', PStr ''x''), (''b'', PStr ''y'')]
   \<and> resolve_value (\<lambda>v. ''?'') (PStr ''${a} and ${b}'') [(''a'', PStr ''x''), (''b'', PStr ''y'')] = PNone
   \<and> resolve_value (\<lambda>v. ''?'') (PStr ''${a} then {{b}}'') [(''a'', PStr ''x''), (''b'', PStr ''y'')] = PNone
   \<and> resolve_value (\<lambda>v. ''?'') (PStr ''{{a}} and {{b}}'') [(''a'', PStr ''x''), (''b'', PStr ''y'')]
       = PStr ''? and ?''
   \<and> resolve_value (\<lambda>v. ''?'') (PStr ''${a.b}'')
         [(''a.b'', PInt 1), (''a'', PDict [(''b'', PInt 7)])] = PInt 7
   \<and> resolve_value (\<lambda>v. ''?'') (PStr ''${a.b}'') [(''a'', PInt 5)] = PNone
   \<and> resolve_value (\<lambda>v. ''?'') (PStr ''${a.c}'') [(''a'', PDict [(''b'', PInt 7)])] = PNone
   \<and> resolve_parameters (\<lambda>v. ''?'')
         [(''x'', PStr ''${a.b}''), (''y'', PStr ''{{a.b}}''), (''z'', PStr ''a.b''), (''n'', PInt 3)]
         [(''a'', PDict [(''b'', PInt 7)])]
       = [(''x'', PInt 7), (''y'', PStr ''?''), (''z'', PStr ''a.b''), (''n'', PInt 3)]"
proof -
  let ?f = "\<lambda>v :: pyval. ''?''"
  let ?c = "[(''a'', PStr ''x''), (''b'', PStr ''y'')]"
  let ?n = "[(''a.b'', PInt 1), (''a'', PDict [(''b'', PInt 7)])]"
  let ?m = "[(''a'', PDict [(''b'', PInt 7)])]"
  let ?ps = "[(''x'', PStr ''${a.b}''), (''y'', PStr ''{{a.b}}''), (''z'', PStr ''a.b''), (''n'', PInt 3)]"
  have shape1: "starts_with ''${'' ''${a} and ${b}'' \<and> ends_with ''}'' ''${a} and ${b}''"
    by (simp add: starts_with_def ends_with_def)
  have noshape: "\<not> (starts_with ''${'' ''{{a}} and {{b}}'' \<and> ends_with ''}'' ''{{a}} and {{b}}'')"
    by (simp add: starts_with_def)
  have tmpl: "resolve_template ?f ''{{a}} and {{b}}'' ?c = ''? and ?''"
    by (simp add: resolve_template_def starts_with_def get_context_value_def strip_def
        is_space_def dict_get_def)
  have sub: "is_substring ''{{'' ''{{a}} and {{b}}''"
    by (simp add: starts_with_def)
  have seg1: "[''a} and ${b''] \<noteq> [] \<and> (\<forall>p \<in> set [''a} and ${b'']. CHR ''.'' \<notin> set p)"
    and seg2: "[''a} then {{b}''] \<noteq> [] \<and> (\<forall>p \<in> set [''a} then {{b}'']. CHR ''.'' \<notin> set p)"
    and seg3: "[''a'', ''b''] \<noteq> [] \<and> (\<forall>p \<in> set [''a'', ''b'']. CHR ''.'' \<notin> set p)"
    and seg4: "[''a'', ''c''] \<noteq> [] \<and> (\<forall>p \<in> set [''a'', ''c'']. CHR ''.'' \<notin> set p)"
    by simp_all
  note t1 = whole_value_reference [of "''${a} and ${b}''" ?f ?c "[''a} and ${b'']" "[]"]
  note t2 = whole_value_reference [of "''{{a}} and {{b}}''" ?f ?c "[''a} then {{b}'']" "[]"]
  note t3 = whole_value_reference [of "[]" ?f ?n "[''a'', ''b'']" "[]"]
  note t4 = whole_value_reference [of "[]" ?f "[(''a'', PInt 5)]" "[''a'', ''b'']" "[]"]
  note t5 = whole_value_reference [of "[]" ?f ?m "[''a'', ''c'']" ?ps]
  have 1: "resolve_value ?f (PStr ''${a} and ${b}'') ?c = get_context_value ''a} and ${b'' ?c"
    using t1 [THEN conjunct1, THEN mp, OF shape1] by simp
  note w1 = t1 [THEN conjunct2, THEN conjunct2, THEN conjunct1, THEN mp, OF seg1]
  note w2 = t2 [THEN conjunct2, THEN conjunct2, THEN conjunct1, THEN mp, OF seg2]
  note w3 = t3 [THEN conjunct2, THEN conjunct2, THEN conjunct1, THEN mp, OF seg3]
  note w4 = t4 [THEN conjunct2, THEN conjunct2, THEN conjunct1, THEN mp, OF seg3]
  note w5 = t5 [THEN conjunct2, THEN conjunct2, THEN conjunct1, THEN mp, OF seg4]
  have p2: "[''a} and ${b''] = [] @ ''a} and ${b'' # [] \<and> walk_path [] (PDict ?c) = PDict ?c
              \<and> map_of ?c ''a} and ${b'' = None"
    by simp
  have 2: "resolve_value ?f (PStr ''${a} and ${b}'') ?c = PNone"
    using w1 [THEN conjunct2, THEN conjunct1, THEN spec, THEN spec, THEN spec, THEN spec, THEN mp, OF p2] by simp
  have p3: "[''a} then {{b}''] = [] @ ''a} then {{b}'' # [] \<and> walk_path [] (PDict ?c) = PDict ?c
              \<and> map_of ?c ''a} then {{b}'' = None"
    by simp
  have 3: "resolve_value ?f (PStr ''${a} then {{b}}'') ?c = PNone"
    using w2 [THEN conjunct2, THEN conjunct1, THEN spec, THEN spec, THEN spec, THEN spec, THEN mp, OF p3] by simp
  have 4: "resolve_value ?f (PStr ''{{a}} and {{b}}'') ?c = PStr ''? and ?''"
    using t2 [THEN conjunct2, THEN conjunct1, THEN mp, OF noshape]
    by (simp only: sub tmpl if_True)
  have p5: "[''a'', ''b''] = [''a''] @ [''b''] \<and> walk_path [''a''] (PDict ?n) = PDict [(''b'', PInt 7)]
              \<and> map_of [(''b'', PInt 7)] ''b'' = Some (PInt 7)"
    by (simp add: dict_get_def)
  have 5: "resolve_value ?f (PStr ''${a.b}'') ?n = PInt 7"
    using w3 [THEN conjunct2, THEN conjunct2, THEN conjunct2, THEN spec, THEN spec, THEN spec, THEN spec, THEN mp, OF p5] by simp
  have p6: "[''a'', ''b''] = [''a''] @ ''b'' # []
              \<and> (\<forall>d. walk_path [''a''] (PDict [(''a'', PInt 5)]) \<noteq> PDict d)"
    by (simp add: dict_get_def)
  have 6: "resolve_value ?f (PStr ''${a.b}'') [(''a'', PInt 5)] = PNone"
    using w4 [THEN conjunct2, THEN conjunct2, THEN conjunct1, THEN spec, THEN spec, THEN spec, THEN mp, OF p6] by simp
  have p7: "[''a'', ''c''] = [''a''] @ ''c'' # [] \<and> walk_path [''a''] (PDict ?m) = PDict [(''b'', PInt 7)]
              \<and> map_of [(''b'', PInt 7)] ''c'' = None"
    by (simp add: dict_get_def)
  have 7: "resolve_value ?f (PStr ''${a.c}'') ?m = PNone"
    using w5 [THEN conjunct2, THEN conjunct1, THEN spec, THEN spec, THEN spec, THEN spec, THEN mp, OF p7] by simp
  have dist: "distinct (map fst ?ps)" by simp
  have vals: "resolve_value ?f (PStr ''${a.b}'') ?m = PInt 7"
    "resolve_value ?f (PStr ''{{a.b}}'') ?m = PStr ''?''"
    "resolve_value ?f (PStr ''a.b'') ?m = PStr ''a.b''"
    "resolve_value ?f (PInt 3) ?m = PInt 3"
    by (simp_all add: resolve_value_def starts_with_def ends_with_def get_context_value_def
        dict_get_def resolve_template_def strip_def is_space_def)
  have 8: "resolve_parameters ?f ?ps ?m
       = [(''x'', PInt 7), (''y'', PStr ''?''), (''z'', PStr ''a.b''), (''n'', PInt 3)]"
    using t5 [THEN conjunct2, THEN conjunct2, THEN conjunct2, THEN mp, OF dist]
    by (simp add: vals)
  from 1 2 3 4 5 6 7 8 show ?thesis by (intro conjI)
qed

section \<open>The execution order holds every step once\<close>

lemma map_fst_dict_set:
  "map fst (dict_set k v g) = (if k \<in> fst ` set g then map fst g else map fst g @ [k])"
  by (induction g) auto

lemma build_graph_keys_aux:
  "distinct (map fst g) \<Longrightarrow>
   distinct (map fst (fold (\<lambda>s graph. dict_set (step_id s) (dependencies s) graph) steps g))
   \<and> set (map fst (fold (\<lambda>s graph. dict_set (step_id s) (dependencies s) graph) steps g))
       = set (map fst g) \<union> set (map step_id steps)"
proof (induction steps arbitrary: g)
  case Nil
  then show ?case by simp
next
  case (Cons s steps)
  have "distinct (map fst (dict_set (step_id s) (dependencies s) g))"
    using Cons.prems by (auto simp: map_fst_dict_set)
  from Cons.IH [OF this] show ?case
    by (auto simp: map_fst_dict_set)
qed

lemma build_graph_keys:
  "distinct (map fst (build_graph steps))"
  "set (map fst (build_graph steps)) = set (map step_id steps)"
  using build_graph_keys_aux [of "[]" steps] by (simp_all add: build_graph_def)

lemma relax_inv:
  assumes "relax sid other (ind, queue) = (ind', queue')" and "queue_inv done ind queue"
  shows "queue_inv done ind' queue' \<and> set queue' \<subseteq> set queue \<union> {fst other}"
proof -
  obtain k deps where other: "other = (k, deps)" by (cases other)
  show ?thesis
  proof (cases "sid \<in> set deps")
    case False
    with assms other show ?thesis by (auto simp: relax_def)
  next
    case True
    show ?thesis
    proof (cases "ind k = 1")
      case one: True
      with True assms(1) other have eq: "ind' = ind(k := 0)" "queue' = queue @ [k]"
        by (auto simp: relax_def Let_def)
      have "k \<notin> set (done @ queue)"
      proof
        assume "k \<in> set (done @ queue)"
        with assms(2) have "ind k \<le> 0" unfolding queue_inv_def by blast
        with one show False by simp
      qed
      with assms(2) eq other show ?thesis by (auto simp: queue_inv_def)
    next
      case False
      with True assms(1) other have eq: "ind' = ind(k := ind k - 1)" "queue' = queue"
        by (auto simp: relax_def Let_def)
      have "ind' j \<le> 0" if "j \<in> set (done @ queue)" for j
      proof -
        from assms(2) that have "ind j \<le> 0" unfolding queue_inv_def by blast
        then show ?thesis using eq by (cases "j = k") auto
      qed
      with assms(2) eq show ?thesis unfolding queue_inv_def by blast
    qed
  qed
qed

lemma fold_relax_inv:
  assumes "fold (relax sid) others (ind, queue) = (ind', queue')" and "queue_inv done ind queue"
  shows "queue_inv done ind' queue' \<and> set queue' \<subseteq> set queue \<union> fst ` set others"
  using assms
proof (induction others arbitrary: ind queue)
  case Nil
  then show ?case by simp
next
  case (Cons other others)
  obtain ind1 queue1 where step: "relax sid other (ind, queue) = (ind1, queue1)"
    by (cases "relax sid other (ind, queue)")
  from relax_inv [OF step Cons.prems(2)]
  have 1: "queue_inv done ind1 queue1" and 2: "set queue1 \<subseteq> set queue \<union> {fst other}" by simp_all
  from Cons.IH [OF _ 1] Cons.prems(1) step
  have "queue_inv done ind' queue' \<and> set queue' \<subseteq> set queue1 \<union> fst ` set others" by simp
  with 2 show ?case by auto
qed

lemma kahn_loop_distinct:
  "queue_inv order ind queue \<Longrightarrow> set (order @ queue) \<subseteq> fst ` set graph \<Longrightarrow>
   distinct (kahn_loop graph ind queue order) \<and> set (kahn_loop graph ind queue order) \<subseteq> fst ` set graph"
proof (induction graph ind queue order rule: kahn_loop.induct)
  case (1 graph in_degree execution_order)
  then show ?case by (simp add: queue_inv_def)
next
  case (2 graph in_degree sid queue execution_order)
  obtain ind' queue' where f: "fold (relax sid) graph (in_degree, queue) = (ind', queue')"
    by (cases "fold (relax sid) graph (in_degree, queue)")
  have "queue_inv (execution_order @ [sid]) in_degree queue"
    using "2.prems"(1) by (auto simp: queue_inv_def)
  from fold_relax_inv [OF f this]
  have inv: "queue_inv (execution_order @ [sid]) ind' queue'"
    and sub: "set queue' \<subseteq> set queue \<union> fst ` set graph" by simp_all
  have "set ((execution_order @ [sid]) @ queue') \<subseteq> fst ` set graph"
    using sub "2.prems"(2) by auto
  from "2.IH" [OF f [symmetric] inv this] f show ?case by simp
qed

lemma kahn_order_distinct:
  "distinct (kahn_order steps) \<and> set (kahn_order steps) \<subseteq> set (map step_id steps)"
proof -
  let ?g = "build_graph steps"
  let ?ind = "count_in_degree ?g"
  let ?q = "filter (\<lambda>k. ?ind k = 0) (map fst ?g)"
  have "queue_inv [] ?ind ?q"
    using build_graph_keys(1) [of steps] by (auto simp: queue_inv_def)
  moreover have "set ([] @ ?q) \<subseteq> fst ` set ?g" by auto
  ultimately have "distinct (kahn_loop ?g ?ind ?q []) \<and> set (kahn_loop ?g ?ind ?q []) \<subseteq> fst ` set ?g"
    by (rule kahn_loop_distinct)
  then show ?thesis using build_graph_keys(2) [of steps] by (simp add: kahn_order_def Let_def)
qed

lemma resolve_dependencies_perm:
  assumes "distinct (map step_id steps)"
  shows "distinct (resolve_dependencies steps)"
    and "set (resolve_dependencies steps) = set (map step_id steps)"
  using assms kahn_order_distinct [of steps]
  by (auto simp: resolve_dependencies_def Let_def)

section \<open>Effects of an attempt and of the retry loop\<close>

lemma update_first_comp:
  "(\<And>x. P x \<Longrightarrow> P (g x)) \<Longrightarrow> update_first P f (update_first P g xs) = update_first P (f \<circ> g) xs"
  by (induction xs) auto

lemma succeeded_error_result [simp]:
  "\<not> succeeded [(''success'', PBool False), (''error'', e), (''step_id'', i)]"
  by (simp add: succeeded_def dict_get_default_def)

lemma execute_step_effect:
  assumes "execute_step E step st = (r, st')"
  shows "\<exists>ps. (ps = resolve_parameters (env_str E) (parameters step) (st_context st)
                \<or> ps = parameters step)
            \<and> st_history st' = st_history st
            @ [\<lparr>rec_step_id = step_id step, rec_tool = tool step, rec_parameters = ps,
                rec_result = r, rec_status = outcome_status r\<rparr>]"
    and "st_status_log st' = st_status_log st
            @ [(step_id step, InProgress), (step_id step, outcome_status r)]"
    and "st_context st' = st_context st"
    and "st_results st' = st_results st"
    and "st_steps st' = update_first (\<lambda>x. step_id x = step_id step)
            (\<lambda>x. x\<lparr>status := outcome_status r, result := Some r\<rparr>) (st_steps st)"
  using assms
  by (auto simp: execute_step_def Let_def set_status_def set_result_def outcome_status_def
      update_first_comp comp_def split: prod.splits sum.splits)

lemma extract_context_failed: "\<not> succeeded r \<Longrightarrow> extract_context r = []"
  by (simp add: extract_context_def succeeded_def dict_get_def dict_get_default_def split: option.splits)

lemma dict_update_Nil [simp]: "dict_update d [] = d"
  by (simp add: dict_update_def)

lemma retry_loop_effect:
  assumes "retry_loop E m step rc res st = (res', st')"
  shows "\<exists>recs. st_history st' = st_history st @ recs
          \<and> retry_shape (nat (m + 1 - rc)) recs
          \<and> (\<forall>r \<in> set recs. rec_step_id r = step_id step \<and> rec_tool r = tool step
                \<and> rec_status r = outcome_status (rec_result r)
                \<and> (rec_parameters r = resolve_parameters (env_str E) (parameters step) (st_context st)
                     \<or> rec_parameters r = parameters step))
          \<and> st_status_log st' = st_status_log st @ attempt_log (step_id step) recs
          \<and> st_context st' = st_context st
          \<and> st_results st' = st_results st
          \<and> (recs = [] \<longrightarrow> res' = res \<and> st_steps st' = st_steps st)
          \<and> (recs \<noteq> [] \<longrightarrow> res' = Some (rec_result (last recs))
                \<and> st_steps st' = update_first (\<lambda>x. step_id x = step_id step)
                     (step_after (last recs)) (st_steps st))"
  using assms
proof (induction E m step rc res st arbitrary: res' st' rule: retry_loop.induct)
  case (1 E m step rc res st)
  show ?case
  proof (cases "rc \<le> m")
    case False
    with "1.prems" have "res' = res" "st' = st"
      by (simp_all add: retry_loop.simps [of E m step rc res st])
    then show ?thesis
      by (intro exI [of _ "[]"]) (use False in \<open>simp add: retry_shape_def attempt_log_def\<close>)
  next
    case True
    obtain r st1 where ex: "execute_step E step st = (r, st1)"
      by (cases "execute_step E step st")
    from execute_step_effect [OF ex] obtain ps where
      p: "ps = resolve_parameters (env_str E) (parameters step) (st_context st) \<or> ps = parameters step"
      and h: "st_history st1 = st_history st @ [\<lparr>rec_step_id = step_id step, rec_tool = tool step,
            rec_parameters = ps, rec_result = r, rec_status = outcome_status r\<rparr>]"
      and l: "st_status_log st1 = st_status_log st @ [(step_id step, InProgress), (step_id step, outcome_status r)]"
      and c: "st_context st1 = st_context st"
      and rs: "st_results st1 = st_results st"
      and ss: "st_steps st1 = update_first (\<lambda>x. step_id x = step_id step)
            (\<lambda>x. x\<lparr>status := outcome_status r, result := Some r\<rparr>) (st_steps st)"
      by blast
    let ?rec = "\<lparr>rec_step_id = step_id step, rec_tool = tool step,
            rec_parameters = ps, rec_result = r, rec_status = outcome_status r\<rparr>"
    show ?thesis
    proof (cases "succeeded r")
      case suc: True
      with "1.prems" True ex have "res' = Some r" "st' = st1"
        by (simp_all add: retry_loop.simps [of E m step rc res st])
      then show ?thesis
        using p h l c rs ss suc True
        by (intro exI [of _ "[?rec]"])
          (simp add: retry_shape_def attempt_log_def outcome_status_def step_after_def)
    next
      case fail: False
      have st2: "(if rc + 1 \<le> m then st1\<lparr>st_context := dict_update (st_context st1) (extract_context r)\<rparr> else st1) = st1"
        using fail by (simp add: extract_context_failed)
      from "1.prems" True ex fail st2
      have rec: "retry_loop E m step (rc + 1) (Some r) st1 = (res', st')"
        by (simp add: retry_loop.simps [of E m step rc res st] Let_def)
      from "1.IH" [OF True ex [symmetric] fail refl refl, unfolded st2, OF rec]
      obtain recs where
        H: "st_history st' = st_history st1 @ recs"
        and S: "retry_shape (nat (m + 1 - (rc + 1))) recs"
        and I: "\<forall>r \<in> set recs. rec_step_id r = step_id step \<and> rec_tool r = tool step
                \<and> rec_status r = outcome_status (rec_result r)
                \<and> (rec_parameters r = resolve_parameters (env_str E) (parameters step) (st_context st1)
                     \<or> rec_parameters r = parameters step)"
        and L: "st_status_log st' = st_status_log st1 @ attempt_log (step_id step) recs"
        and C: "st_context st' = st_context st1"
        and R: "st_results st' = st_results st1"
        and E0: "recs = [] \<longrightarrow> res' = Some r \<and> st_steps st' = st_steps st1"
        and E1: "recs \<noteq> [] \<longrightarrow> res' = Some (rec_result (last recs))
                \<and> st_steps st' = update_first (\<lambda>x. step_id x = step_id step)
                     (step_after (last recs)) (st_steps st1)"
        by blast
      have shape: "retry_shape (nat (m + 1 - rc)) (?rec # recs)"
        using S True fail unfolding retry_shape_def outcome_status_def
        by (cases recs) (auto simp: nat_diff_distrib)
      have steps: "st_steps st' = update_first (\<lambda>x. step_id x = step_id step)
                     (step_after (last (?rec # recs))) (st_steps st)"
      proof (cases "recs = []")
        case True
        with E0 ss show ?thesis by (simp add: step_after_def)
      next
        case False
        with E1 ss show ?thesis
          by (simp add: update_first_comp comp_def step_after_def)
      qed
      show ?thesis
        using H S I L C R E0 E1 p h l c rs shape steps
        by (intro exI [of _ "?rec # recs"]) (auto simp: attempt_log_def)
    qed
  qed
qed

lemma lookup_step_id: "lookup_step sid steps = Some s \<Longrightarrow> step_id s = sid \<and> s \<in> set steps"
  by (auto simp: lookup_step_def find_Some_iff)

lemma lookup_step_None: "lookup_step sid steps = None \<longleftrightarrow> sid \<notin> set (map step_id steps)"
  by (auto simp: lookup_step_def find_None_iff)

lemma map_step_id_update_first:
  "(\<And>x. step_id (f x) = step_id x) \<Longrightarrow> map step_id (update_first P f xs) = map step_id xs"
  by (induction xs) auto

lemma lookup_update_first_other:
  "(\<And>x. step_id (f x) = step_id x) \<Longrightarrow> X \<noteq> Y \<Longrightarrow>
   lookup_step X (update_first (\<lambda>x. step_id x = Y) f xs) = lookup_step X xs"
  by (induction xs) (auto simp: lookup_step_def)

lemma lookup_update_first_same:
  "(\<And>x. step_id (f x) = step_id x) \<Longrightarrow>
   lookup_step X (update_first (\<lambda>x. step_id x = X) f xs) = map_option f (lookup_step X xs)"
  by (induction xs) (auto simp: lookup_step_def)

lemma step_id_step_after [simp]: "step_id (step_after r x) = step_id x"
  by (simp add: step_after_def)

lemma map_of_dict_set: "map_of (dict_set k v d) = (map_of d)(k \<mapsto> v)"
  by (induction d) (auto simp: fun_eq_iff)

lemma succeeded_outcome: "outcome_status r = Completed \<longleftrightarrow> succeeded r"
  by (simp add: outcome_status_def)

text \<open>The two ways through the body of the loop over the execution order.\<close>

lemma process_step_cases:
  assumes "process_step E m sid st = Inr st'"
  obtains (gated) step where
      "lookup_step sid (st_steps st) = Some step"
      "\<not> dependencies_satisfied step (st_steps st)"
      "st_history st' = st_history st"
      "st_status_log st' = st_status_log st @ [(sid, Failed)]"
      "st_results st' = dict_set sid dependency_failure (st_results st)"
      "st_context st' = st_context st"
      "st_world st' = st_world st"
      "st_steps st' = update_first (\<lambda>x. step_id x = sid) (\<lambda>x. x\<lparr>status := Failed\<rparr>) (st_steps st)"
  | (attempted) step recs where
      "lookup_step sid (st_steps st) = Some step"
      "dependencies_satisfied step (st_steps st)"
      "recs \<noteq> []"
      "st_history st' = st_history st @ recs"
      "retry_shape (nat (m + 1)) recs"
      "\<forall>r \<in> set recs. rec_step_id r = sid \<and> rec_tool r = tool step
          \<and> rec_status r = outcome_status (rec_result r)
          \<and> (rec_parameters r = resolve_parameters (env_str E) (parameters step) (st_context st)
               \<or> rec_parameters r = parameters step)"
      "st_status_log st' = st_status_log st @ attempt_log sid recs"
      "st_results st' = dict_set sid (rec_result (last recs)) (st_results st)"
      "st_context st' =
         (if rec_status (last recs) = Completed
          then dict_set (''step_'' @ str_int sid @ ''_result'') (PDict (rec_result (last recs)))
                 (dict_update (st_context st) (extract_context (rec_result (last recs))))
          else st_context st)"
      "st_steps st' = update_first (\<lambda>x. step_id x = sid) (step_after (last recs)) (st_steps st)"
proof -
  from assms obtain step where step: "lookup_step sid (st_steps st) = Some step"
    by (auto simp: process_step_def split: option.splits)
  then have sid: "step_id step = sid" by (simp add: lookup_step_id)
  show thesis
  proof (cases "dependencies_satisfied step (st_steps st)")
    case False
    with assms step have "st' = (set_status sid Failed st)
                   \<lparr>st_results := dict_set sid dependency_failure (st_results st)\<rparr>"
      by (simp add: process_step_def)
    then show thesis
      using step False by (intro gated [of step]) (simp_all add: set_status_def)
  next
    case True
    obtain res st1 where rl: "retry_loop E m step 0 None st = (res, st1)"
      by (cases "retry_loop E m step 0 None st")
    from retry_loop_effect [OF rl] obtain recs where
      H: "st_history st1 = st_history st @ recs"
      and S: "retry_shape (nat (m + 1 - 0)) recs"
      and I: "\<forall>r \<in> set recs. rec_step_id r = step_id step \<and> rec_tool r = tool step
                \<and> rec_status r = outcome_status (rec_result r)
                \<and> (rec_parameters r = resolve_parameters (env_str E) (parameters step) (st_context st)
                     \<or> rec_parameters r = parameters step)"
      and L: "st_status_log st1 = st_status_log st @ attempt_log (step_id step) recs"
      and C: "st_context st1 = st_context st"
      and R: "st_results st1 = st_results st"
      and E0: "recs = [] \<longrightarrow> res = None \<and> st_steps st1 = st_steps st"
      and E1: "recs \<noteq> [] \<longrightarrow> res = Some (rec_result (last recs))
                \<and> st_steps st1 = update_first (\<lambda>x. step_id x = step_id step)
                     (step_after (last recs)) (st_steps st)"
      by blast
    have ne: "recs \<noteq> []"
    proof
      assume "recs = []"
      with E0 rl assms step True show False by (simp add: process_step_def)
    qed
    with E1 have res: "res = Some (rec_result (last recs))"
      and steps1: "st_steps st1 = update_first (\<lambda>x. step_id x = sid) (step_after (last recs)) (st_steps st)"
      using sid by simp_all
    from ne I have last: "rec_status (last recs) = outcome_status (rec_result (last recs))"
      by simp
    let ?r = "rec_result (last recs)"
    have st': "st' = (if succeeded ?r
                then st1\<lparr>st_results := dict_set sid ?r (st_results st1),
                        st_context := dict_set (''step_'' @ str_int sid @ ''_result'') (PDict ?r)
                          (dict_update (st_context st1) (extract_context ?r))\<rparr>
                else st1\<lparr>st_results := dict_set sid ?r (st_results st1)\<rparr>)"
      using assms step True rl res by (simp add: process_step_def Let_def split: if_splits)
    show thesis
      using step True ne H S I L C R steps1 sid last st'
      by (intro attempted [of step recs]) (auto simp: succeeded_outcome outcome_status_def)
  qed
qed

lemma run_order_append:
  "run_order E m (xs @ ys) st =
     (case run_order E m xs st of Inl e \<Rightarrow> Inl e | Inr st1 \<Rightarrow> run_order E m ys st1)"
  by (induction xs arbitrary: st) (auto split: sum.splits)

lemma recs_of_append [simp]: "recs_of sid (a @ b) = recs_of sid a @ recs_of sid b"
  by (simp add: recs_of_def)

lemma log_of_append [simp]: "log_of sid (a @ b) = log_of sid a @ log_of sid b"
  by (simp add: log_of_def)

lemma recs_of_other: "\<forall>r \<in> set recs. rec_step_id r = Y \<Longrightarrow> X \<noteq> Y \<Longrightarrow> recs_of X recs = []"
  by (auto simp: recs_of_def filter_empty_conv)

lemma recs_of_same: "\<forall>r \<in> set recs. rec_step_id r = X \<Longrightarrow> recs_of X recs = recs"
  by (auto simp: recs_of_def filter_id_conv)

lemma log_of_attempt_log_other: "X \<noteq> Y \<Longrightarrow> log_of X (attempt_log Y recs) = []"
  by (induction recs) (auto simp: log_of_def attempt_log_def)

lemma log_of_attempt_log_same:
  "log_of X (attempt_log X recs) = concat (map (\<lambda>r. [InProgress, rec_status r]) recs)"
  by (induction recs) (auto simp: log_of_def attempt_log_def)

lemma unchanged_for_refl [simp]: "unchanged_for X st st"
  by (simp add: unchanged_for_def)

lemma unchanged_for_trans:
  "unchanged_for X st st1 \<Longrightarrow> unchanged_for X st1 st2 \<Longrightarrow> unchanged_for X st st2"
  by (simp add: unchanged_for_def)

lemma process_step_frame:
  assumes "process_step E m sid st = Inr st'"
  shows "map step_id (st_steps st') = map step_id (st_steps st)"
    and "\<exists>recs. st_history st' = st_history st @ recs"
    and "X \<noteq> sid \<Longrightarrow> unchanged_for X st st'"
proof -
  have "map step_id (st_steps st') = map step_id (st_steps st)
        \<and> (\<exists>recs. st_history st' = st_history st @ recs)
        \<and> (X \<noteq> sid \<longrightarrow> unchanged_for X st st')"
    using assms
  proof (cases rule: process_step_cases)
    case (gated step)
    have "log_of X [(sid, Failed)] = []" if "X \<noteq> sid"
      using that by (simp add: log_of_def)
    then show ?thesis
      unfolding unchanged_for_def gated(3,4,5,8)
      by (simp add: map_step_id_update_first lookup_update_first_other map_of_dict_set)
  next
    case (attempted step recs)
    have "recs_of X recs = []" if "X \<noteq> sid"
      using that attempted(6) recs_of_other [of recs sid X] by blast
    then show ?thesis
      unfolding unchanged_for_def attempted(4,7,8,10)
      by (simp add: map_step_id_update_first lookup_update_first_other map_of_dict_set
          log_of_attempt_log_other)
  qed
  then show "map step_id (st_steps st') = map step_id (st_steps st)"
    and "\<exists>recs. st_history st' = st_history st @ recs"
    and "X \<noteq> sid \<Longrightarrow> unchanged_for X st st'"
    by blast+
qed

lemma run_order_frame:
  assumes "run_order E m order st = Inr st'"
  shows "map step_id (st_steps st') = map step_id (st_steps st)"
    and "\<exists>recs. st_history st' = st_history st @ recs"
    and "X \<notin> set order \<Longrightarrow> unchanged_for X st st'"
proof -
  have "map step_id (st_steps st') = map step_id (st_steps st)
        \<and> (\<exists>recs. st_history st' = st_history st @ recs)
        \<and> (X \<notin> set order \<longrightarrow> unchanged_for X st st')"
    using assms
  proof (induction order arbitrary: st)
    case Nil
    then show ?case by simp
  next
    case (Cons sid order)
    from Cons.prems obtain st1 where p: "process_step E m sid st = Inr st1"
      and r: "run_order E m order st1 = Inr st'"
      by (auto split: sum.splits)
    note f = process_step_frame [OF p]
    note g = Cons.IH [OF r]
    have "map step_id (st_steps st') = map step_id (st_steps st)"
      using f(1) g by simp
    moreover have "\<exists>recs. st_history st' = st_history st @ recs"
    proof -
      from f(2) obtain a where "st_history st1 = st_history st @ a" by blast
      moreover from g obtain b where "st_history st' = st_history st1 @ b" by blast
      ultimately have "st_history st' = st_history st @ (a @ b)" by simp
      then show ?thesis by blast
    qed
    moreover have "unchanged_for X st st'" if "X \<notin> set (sid # order)"
    proof -
      from that have "unchanged_for X st st1" using f(3) [of X] by simp
      moreover from that g have "unchanged_for X st1 st'" by simp
      ultimately show ?thesis by (rule unchanged_for_trans)
    qed
    ultimately show ?case by blast
  qed
  then show "map step_id (st_steps st') = map step_id (st_steps st)"
    and "\<exists>recs. st_history st' = st_history st @ recs"
    and "X \<notin> set order \<Longrightarrow> unchanged_for X st st'"
    by blast+
qed

lemma run_order_split:
  assumes "run_order E m order st = Inr st'" and "sid \<in> set order" and "distinct order"
  obtains pre post st_a st_b where
    "order = pre @ sid # post" "sid \<notin> set pre" "sid \<notin> set post"
    "run_order E m pre st = Inr st_a" "process_step E m sid st_a = Inr st_b"
    "run_order E m post st_b = Inr st'"
proof -
  from assms(2) obtain pre post where o: "order = pre @ sid # post"
    by (auto simp: in_set_conv_decomp)
  with assms(3) have n: "sid \<notin> set pre" "sid \<notin> set post" by auto
  from assms(1) o obtain st_a where a: "run_order E m pre st = Inr st_a"
    and rest: "run_order E m (sid # post) st_a = Inr st'"
    by (auto simp: run_order_append split: sum.splits)
  from rest obtain st_b where "process_step E m sid st_a = Inr st_b" "run_order E m post st_b = Inr st'"
    by (auto split: sum.splits)
  with o n a show thesis by (rule that)
qed

lemma initial_state_sel [simp]:
  "st_steps (initial_state steps hist w) = steps"
  "st_context (initial_state steps hist w) = []"
  "st_results (initial_state steps hist w) = []"
  "st_history (initial_state steps hist w) = hist"
  "st_world (initial_state steps hist w) = w"
  "st_status_log (initial_state steps hist w) = []"
  by (simp_all add: initial_state_def)

lemma execute_plan_Inr:
  assumes "execute_plan E m steps hist w = Inr (sm, st')"
  shows "run_order E m (resolve_dependencies steps) (initial_state steps hist w) = Inr st'"
    and "sm = generate_summary (st_steps st') (st_results st') (st_history st')"
  using assms by (auto simp: execute_plan_def Let_def split: sum.splits)

lemma generate_summary_sel [simp]:
  "sm_steps (generate_summary steps results h) = steps"
  "sm_results (generate_summary steps results h) = results"
  "sm_execution_history (generate_summary steps results h) = h"
  by (simp_all add: generate_summary_def Let_def)

lemma new_records_append [simp]: "new_records hist (hist @ new) = new"
  by (simp add: new_records_def)

text \<open>
  What a run of a plan with distinct identifiers does with one of its steps: the step is either
  stopped at the dependency check or attempted, and the records, status assignments, result and
  step object that the body of the loop leaves for it are those of the whole run.
\<close>

lemma execute_plan_cases:
  assumes ex: "execute_plan E m steps hist w = Inr (sm, st')"
    and dist: "distinct (map step_id steps)"
    and look: "lookup_step sid steps = Some step"
  obtains (gated) pre post st_a where
      "resolve_dependencies steps = pre @ sid # post"
      "run_order E m pre (initial_state steps hist w) = Inr st_a"
      "lookup_step sid (st_steps st_a) = Some step"
      "\<not> dependencies_satisfied step (st_steps st_a)"
      "recs_of sid (new_records hist (sm_execution_history sm)) = []"
      "log_of sid (st_status_log st') = [Failed]"
      "map_of (sm_results sm) sid = Some dependency_failure"
      "lookup_step sid (sm_steps sm) = Some (step\<lparr>status := Failed\<rparr>)"
  | (attempted) pre post st_a recs where
      "resolve_dependencies steps = pre @ sid # post"
      "run_order E m pre (initial_state steps hist w) = Inr st_a"
      "lookup_step sid (st_steps st_a) = Some step"
      "dependencies_satisfied step (st_steps st_a)"
      "recs \<noteq> []"
      "retry_shape (nat (m + 1)) recs"
      "\<forall>r \<in> set recs. rec_step_id r = sid \<and> rec_tool r = tool step
          \<and> rec_status r = outcome_status (rec_result r)
          \<and> (rec_parameters r = resolve_parameters (env_str E) (parameters step) (st_context st_a)
               \<or> rec_parameters r = parameters step)"
      "recs_of sid (new_records hist (sm_execution_history sm)) = recs"
      "log_of sid (st_status_log st') = concat (map (\<lambda>r. [InProgress, rec_status r]) recs)"
      "map_of (sm_results sm) sid = Some (rec_result (last recs))"
      "lookup_step sid (sm_steps sm) = Some (step_after (last recs) step)"
proof -
  let ?i = "initial_state steps hist w"
  note run = execute_plan_Inr [OF ex]
  from look have sid: "sid \<in> set (resolve_dependencies steps)"
    using resolve_dependencies_perm(2) [OF dist] lookup_step_None [of sid steps] by auto
  from run(1) sid resolve_dependencies_perm(1) [OF dist]
  obtain pre post st_a st_b where
    o: "resolve_dependencies steps = pre @ sid # post"
    and n: "sid \<notin> set pre" "sid \<notin> set post"
    and a: "run_order E m pre ?i = Inr st_a"
    and b: "process_step E m sid st_a = Inr st_b"
    and c: "run_order E m post st_b = Inr st'"
    by (rule run_order_split)
  from run_order_frame(3) [OF a n(1)] have ua: "unchanged_for sid ?i st_a" .
  from run_order_frame(3) [OF c n(2)] have uc: "unchanged_for sid st_b st'" .
  from run_order_frame(2) [OF run(1)] obtain new where new: "st_history st' = hist @ new"
    by auto
  from ua look have la: "lookup_step sid (st_steps st_a) = Some step"
    by (simp add: unchanged_for_def)
  from ua have ha: "recs_of sid (st_history st_a) = recs_of sid hist"
    and ga: "log_of sid (st_status_log st_a) = []"
    by (simp_all add: unchanged_for_def log_of_def)
  from uc have hc: "recs_of sid (st_history st') = recs_of sid (st_history st_b)"
    and gc: "log_of sid (st_status_log st') = log_of sid (st_status_log st_b)"
    and rc: "map_of (st_results st') sid = map_of (st_results st_b) sid"
    and lc: "lookup_step sid (st_steps st') = lookup_step sid (st_steps st_b)"
    by (simp_all add: unchanged_for_def)
  from b show thesis
  proof (cases rule: process_step_cases)
    case (gated step')
    with la have [simp]: "step' = step" by simp
    have "recs_of sid hist @ recs_of sid new = recs_of sid hist"
      using hc new gated(3) ha by simp
    then have 1: "recs_of sid (new_records hist (sm_execution_history sm)) = []"
      using run(2) new by simp
    have 2: "log_of sid (st_status_log st') = [Failed]"
      using gc gated(4) ga by (simp add: log_of_def)
    have 3: "map_of (sm_results sm) sid = Some dependency_failure"
      using rc gated(5) run(2) by (simp add: map_of_dict_set)
    have 4: "lookup_step sid (sm_steps sm) = Some (step\<lparr>status := Failed\<rparr>)"
      using lc gated(8) run(2) la by (simp add: lookup_update_first_same)
    from o a la gated(2) 1 2 3 4 show thesis
      by (intro that(1) [of pre post st_a]) simp_all
  next
    case (attempted step' recs)
    with la have [simp]: "step' = step" by simp
    have same: "recs_of sid recs = recs"
      using attempted(6) by (intro recs_of_same) simp
    have "recs_of sid hist @ recs_of sid new = recs_of sid hist @ recs"
      using hc new attempted(4) ha same by simp
    then have 1: "recs_of sid (new_records hist (sm_execution_history sm)) = recs"
      using run(2) new by simp
    have 2: "log_of sid (st_status_log st') = concat (map (\<lambda>r. [InProgress, rec_status r]) recs)"
      using gc attempted(7) ga by (simp add: log_of_attempt_log_same)
    have 3: "map_of (sm_results sm) sid = Some (rec_result (last recs))"
      using rc attempted(8) run(2) by (simp add: map_of_dict_set)
    have 4: "lookup_step sid (sm_steps sm) = Some (step_after (last recs) step)"
      using lc attempted(10) run(2) la by (simp add: lookup_update_first_same)
    from o a la attempted(2,3,5,6) 1 2 3 4 show thesis
      by (intro that(2) [of pre post st_a recs]) simp_all
  qed
qed

section \<open>The example plan, run\<close>

lemma example_order: "resolve_dependencies example_plan = [0, 1, 2]"
  by (simp add: example_plan_def PlanStep_def resolve_dependencies_def kahn_order_def
      build_graph_def count_in_degree_def relax_def)

lemma example_run:
  "\<exists>sm st. execute_plan example_env 2 example_plan [] 0 = Inr (sm, st)
     \<and> sm_execution_history sm = example_history
     \<and> st_world st = 5
     \<and> st_status_log st = [(0, InProgress), (0, Failed), (0, InProgress), (0, Completed),
          (1, InProgress), (1, Failed), (1, InProgress), (1, Failed), (1, InProgress), (1, Failed),
          (2, Failed)]
     \<and> map status (sm_steps sm) = [Completed, Failed, Failed]
     \<and> map_of (sm_results sm) 2 = Some dependency_failure
     \<and> st_context st = [(''api_response'', PStr ''ok''), (''step_0_result'', PDict api_success)]"
  unfolding execute_plan_def example_order Let_def
  by (simp add: initial_state_def process_step_def
      example_plan_def PlanStep_def lookup_step_def dependencies_satisfied_def
      retry_loop.simps execute_step_def set_status_def set_result_def example_env_def
      example_tools_def resolve_parameters_def resolve_value_def starts_with_def ends_with_def
      succeeded_def dict_get_default_def dict_get_def extract_context_def dict_update_def
      generate_summary_def example_history_def read_failure_def api_failure_def api_success_def
      nat_digits.simps str_int_def Let_def)

lemma example_plan_distinct: "distinct (map step_id example_plan)"
  by (simp add: example_plan_def PlanStep_def)

section \<open>The retry bound\<close>

text \<open>
  Claim C1. In a run of a plan with distinct step identifiers that returns its summary, take
  the attempts of one step, which are the records that the run added to the history for it.
  There are at most \<open>1 + max_retries\<close> of them; when the step was attempted and no attempt
  succeeded, there are exactly \<open>1 + max_retries\<close>; and no attempt but the last one
  succeeded, so that no attempt follows a successful one.
\<close>

theorem retry_bound:
  assumes "execute_plan E max_retries steps hist w = Inr (sm, st')"
    and "distinct (map step_id steps)"
    and "lookup_step sid steps = Some step"
  shows "length (recs_of sid (new_records hist (sm_execution_history sm))) \<le> nat (1 + max_retries)
       \<and> (recs_of sid (new_records hist (sm_execution_history sm)) \<noteq> []
            \<and> (\<forall>r \<in> set (recs_of sid (new_records hist (sm_execution_history sm))).
                  \<not> succeeded (rec_result r))
          \<longrightarrow> int (length (recs_of sid (new_records hist (sm_execution_history sm))))
                = 1 + max_retries)
       \<and> (\<forall>r \<in> set (butlast (recs_of sid (new_records hist (sm_execution_history sm)))).
             \<not> succeeded (rec_result r))"
  using assms
proof (cases rule: execute_plan_cases)
  case (gated pre post st_a)
  then show ?thesis by simp
next
  case (attempted pre post st_a recs)
  have fail: "\<not> succeeded (rec_result r) \<longleftrightarrow> rec_status r = Failed" if "r \<in> set recs" for r
    using attempted(7) that by (auto simp: outcome_status_def)
  have len: "length recs \<le> nat (1 + max_retries)"
    using attempted(6) by (simp add: retry_shape_def add.commute)
  have all: "int (length recs) = 1 + max_retries" if "\<forall>r \<in> set recs. \<not> succeeded (rec_result r)"
  proof -
    from that fail have "\<forall>r \<in> set recs. rec_status r = Failed" by simp
    with attempted(6) have "length recs = nat (max_retries + 1)" by (simp add: retry_shape_def)
    moreover from attempted(5) have "0 < length recs" by simp
    ultimately show ?thesis by linarith
  qed
  have early: "\<not> succeeded (rec_result r)" if "r \<in> set (butlast recs)" for r
  proof -
    from that have "r \<in> set recs" by (rule in_set_butlastD)
    moreover from that attempted(6) have "rec_status r = Failed" by (simp add: retry_shape_def)
    ultimately show ?thesis using fail by simp
  qed
  show ?thesis
    unfolding attempted(8) using len all early by blast
qed

text \<open>
  In the example run with \<open>max_retries = 2\<close>, the file read fails three times and is
  attempted three times, and the API call is attempted twice: once failing, once succeeding.
\<close>

theorem retry_bound_witness:
  "\<exists>sm st. execute_plan example_env 2 example_plan [] 0 = Inr (sm, st)
     \<and> map (\<lambda>r. succeeded (rec_result r)) (recs_of 1 (new_records [] (sm_execution_history sm)))
         = [False, False, False]
     \<and> int (length (recs_of 1 (new_records [] (sm_execution_history sm)))) = 1 + 2
     \<and> map (\<lambda>r. succeeded (rec_result r)) (recs_of 0 (new_records [] (sm_execution_history sm)))
         = [False, True]
     \<and> st_world st = 5"
proof -
  from example_run obtain sm st where
    run: "execute_plan example_env 2 example_plan [] 0 = Inr (sm, st)"
    and h: "sm_execution_history sm = example_history"
    and w: "st_world st = 5"
    by blast
  have l: "lookup_step 1 example_plan = Some (example_plan ! 1)"
    by (simp add: example_plan_def PlanStep_def lookup_step_def)
  have r1: "map (\<lambda>r. succeeded (rec_result r)) (recs_of 1 (new_records [] example_history))
              = [False, False, False]"
    and r0: "map (\<lambda>r. succeeded (rec_result r)) (recs_of 0 (new_records [] example_history))
              = [False, True]"
    by (simp_all add: recs_of_def new_records_def example_history_def succeeded_def
        dict_get_default_def read_failure_def api_failure_def api_success_def)
  have ne: "recs_of 1 (new_records [] example_history) \<noteq> []"
    and all: "\<forall>r \<in> set (recs_of 1 (new_records [] example_history)). \<not> succeeded (rec_result r)"
    by (simp_all add: recs_of_def new_records_def example_history_def succeeded_def
        dict_get_default_def read_failure_def api_failure_def api_success_def)
  from retry_bound [OF run example_plan_distinct l, unfolded h, THEN conjunct2, THEN conjunct1]
    ne all
  have "int (length (recs_of 1 (new_records [] example_history))) = 1 + 2" by blast
  with run h w r1 r0 show ?thesis by auto
qed

section \<open>Dependency gating\<close>

lemma split_unique:
  assumes "distinct (pre @ x # post)" and "pre @ x # post = pre' @ x # post'"
  shows "pre = pre'"
proof -
  have tw: "takeWhile (\<lambda>y. y \<noteq> x) (p @ x # q) = p" if "x \<notin> set p" for p q :: "'a list"
    using that by (induction p) auto
  from assms(1) have "x \<notin> set pre" by auto
  moreover from assms have "distinct (pre' @ x # post')" by simp
  then have "x \<notin> set pre'" by auto
  ultimately
  have "takeWhile (\<lambda>y. y \<noteq> x) (pre @ x # post) = pre"
    and "takeWhile (\<lambda>y. y \<noteq> x) (pre' @ x # post') = pre'"
    by (simp_all add: tw)
  with assms(2) show ?thesis by simp
qed

lemma process_step_gated:
  assumes "lookup_step sid (st_steps st) = Some step"
    and "\<not> dependencies_satisfied step (st_steps st)"
  shows "process_step E m sid st
           = Inr (st\<lparr>st_steps := update_first (\<lambda>x. step_id x = sid) (\<lambda>x. x\<lparr>status := Failed\<rparr>) (st_steps st),
                    st_status_log := st_status_log st @ [(sid, Failed)],
                    st_results := dict_set sid dependency_failure (st_results st)\<rparr>)"
  using assms by (simp add: process_step_def set_status_def)

lemma unmet_dependency:
  assumes "dep \<in> set (dependencies step)"
    and "\<forall>dep_step. lookup_step dep all_steps = Some dep_step \<longrightarrow> status dep_step \<noteq> Completed"
  shows "\<not> dependencies_satisfied step all_steps"
proof -
  from assms(1) have "dependencies step \<noteq> []" by auto
  moreover have "\<not> (case lookup_step dep all_steps of None \<Rightarrow> False
                    | Some dep_step \<Rightarrow> status dep_step = Completed)"
    using assms(2) by (auto split: option.splits)
  ultimately show ?thesis
    using assms(1) by (auto simp: dependencies_satisfied_def list_all_iff)
qed

text \<open>
  Claim C2. A step of a plan with distinct identifiers is reached in the state \<open>st_a\<close>
  that the steps before it in the execution order have left. When one of its declared
  dependencies is then missing from the plan or has a status other than completed, the body of
  the loop for this step makes no attempt: it leaves the history and the outside world as they
  were. In the summary of the run the step is failed, its result is the
  dependencies-not-satisfied result, and the run has added no history record for it.
\<close>

theorem dependency_gating:
  assumes "execute_plan E max_retries steps hist w = Inr (sm, st')"
    and "distinct (map step_id steps)"
    and "lookup_step sid steps = Some step"
    and "resolve_dependencies steps = pre @ sid # post"
    and "run_order E max_retries pre (initial_state steps hist w) = Inr st_a"
    and "dep \<in> set (dependencies step)"
    and "\<forall>dep_step. lookup_step dep (st_steps st_a) = Some dep_step \<longrightarrow> status dep_step \<noteq> Completed"
  shows "(\<exists>st_b. process_step E max_retries sid st_a = Inr st_b
              \<and> st_history st_b = st_history st_a \<and> st_world st_b = st_world st_a)
       \<and> recs_of sid (new_records hist (sm_execution_history sm)) = []
       \<and> lookup_step sid (sm_steps sm) = Some (step\<lparr>status := Failed\<rparr>)
       \<and> map_of (sm_results sm) sid = Some dependency_failure"
  using assms(1-3)
proof (cases rule: execute_plan_cases)
  case (gated pre' post' st_a')
  have "distinct (pre @ sid # post)"
    using resolve_dependencies_perm(1) [OF assms(2)] assms(4) by simp
  with assms(4) gated(1) have "pre = pre'" by (intro split_unique [of pre sid post pre' post']) simp_all
  with assms(5) gated(2) have [simp]: "st_a' = st_a" by simp
  from process_step_gated [OF gated(3,4), of E max_retries]
  have "\<exists>st_b. process_step E max_retries sid st_a = Inr st_b
              \<and> st_history st_b = st_history st_a \<and> st_world st_b = st_world st_a"
    by simp
  with gated(5,7,8) show ?thesis by simp
next
  case (attempted pre' post' st_a' recs)
  have "distinct (pre @ sid # post)"
    using resolve_dependencies_perm(1) [OF assms(2)] assms(4) by simp
  with assms(4) attempted(1) have "pre = pre'" by (intro split_unique [of pre sid post pre' post']) simp_all
  with assms(5) attempted(2) have "st_a' = st_a" by simp
  with attempted(4) unmet_dependency [OF assms(6,7)] show ?thesis by simp
qed

lemma example_prefix:
  "\<exists>st_a. run_order example_env 2 [0, 1] (initial_state example_plan [] 0) = Inr st_a
     \<and> map_option status (lookup_step 1 (st_steps st_a)) = Some Failed
     \<and> st_world st_a = 5"
  by (simp add: initial_state_def process_step_def
      example_plan_def PlanStep_def lookup_step_def dependencies_satisfied_def
      retry_loop.simps execute_step_def set_status_def set_result_def example_env_def
      example_tools_def resolve_parameters_def resolve_value_def starts_with_def ends_with_def
      succeeded_def dict_get_default_def dict_get_def extract_context_def dict_update_def
      read_failure_def api_failure_def api_success_def
      nat_digits.simps str_int_def Let_def)

text \<open>
  In the example run the calculation depends on the file read, which has failed when the
  calculation is reached after five tool calls: the calculation is failed without a record.
\<close>

theorem dependency_gating_witness:
  "\<exists>sm st st_a. execute_plan example_env 2 example_plan [] 0 = Inr (sm, st)
     \<and> run_order example_env 2 [0, 1] (initial_state example_plan [] 0) = Inr st_a
     \<and> map_option status (lookup_step 1 (st_steps st_a)) = Some Failed
     \<and> st_world st_a = 5 \<and> st_world st = 5
     \<and> recs_of 2 (new_records [] (sm_execution_history sm)) = []
     \<and> map_option status (lookup_step 2 (sm_steps sm)) = Some Failed
     \<and> map_of (sm_results sm) 2 = Some dependency_failure"
proof -
  from example_run obtain sm st where
    run: "execute_plan example_env 2 example_plan [] 0 = Inr (sm, st)"
    and w: "st_world st = 5"
    by blast
  from example_prefix obtain st_a where
    pre: "run_order example_env 2 [0, 1] (initial_state example_plan [] 0) = Inr st_a"
    and f: "map_option status (lookup_step 1 (st_steps st_a)) = Some Failed"
    and wa: "st_world st_a = 5"
    by blast
  have l: "lookup_step 2 example_plan = Some (example_plan ! 2)"
    by (simp add: example_plan_def PlanStep_def lookup_step_def)
  have o: "resolve_dependencies example_plan = [0, 1] @ 2 # []"
    by (simp add: example_order)
  have d: "1 \<in> set (dependencies (example_plan ! 2))"
    by (simp add: example_plan_def PlanStep_def)
  have n: "\<forall>dep_step. lookup_step 1 (st_steps st_a) = Some dep_step \<longrightarrow> status dep_step \<noteq> Completed"
    using f by auto
  from dependency_gating [OF run example_plan_distinct l o pre d n]
  have "recs_of 2 (new_records [] (sm_execution_history sm)) = []"
    and "map_option status (lookup_step 2 (sm_steps sm)) = Some Failed"
    and "map_of (sm_results sm) 2 = Some dependency_failure"
    by simp_all
  with run pre f w wa show ?thesis by blast
qed

section \<open>Every step is processed once and the run returns\<close>

lemma retry_loop_result:
  "res \<noteq> None \<or> retry_count \<le> max_retries \<Longrightarrow>
   fst (retry_loop E max_retries step retry_count res st) \<noteq> None"
proof (induction E max_retries step retry_count res st rule: retry_loop.induct)
  case (1 E m step rc res st)
  show ?case
  proof (cases "rc \<le> m")
    case False
    with "1.prems" show ?thesis by (simp add: retry_loop.simps [of E m step rc res st])
  next
    case True
    obtain r st1 where ex: "execute_step E step st = (r, st1)"
      by (cases "execute_step E step st")
    show ?thesis
    proof (cases "succeeded r")
      case suc: True
      with True ex show ?thesis by (simp add: retry_loop.simps [of E m step rc res st])
    next
      case fail: False
      from "1.IH" [OF True ex [symmetric] fail refl refl] True ex fail
      show ?thesis by (simp add: retry_loop.simps [of E m step rc res st] Let_def)
    qed
  qed
qed

lemma process_step_total:
  assumes "0 \<le> m" and "sid \<in> set (map step_id (st_steps st))"
  shows "\<exists>st'. process_step E m sid st = Inr st'"
proof -
  from assms(2) obtain step where step: "lookup_step sid (st_steps st) = Some step"
    using lookup_step_None [of sid "st_steps st"] by (cases "lookup_step sid (st_steps st)") auto
  obtain res st1 where rl: "retry_loop E m step 0 None st = (res, st1)"
    by (cases "retry_loop E m step 0 None st")
  with retry_loop_result [of None 0 m E step st] assms(1) obtain r where "res = Some r"
    by (cases res) auto
  with step rl show ?thesis
    by (simp add: process_step_def Let_def)
qed

lemma run_order_total:
  assumes "0 \<le> m" and "set order \<subseteq> set (map step_id (st_steps st))"
  shows "\<exists>st'. run_order E m order st = Inr st'"
  using assms(2)
proof (induction order arbitrary: st)
  case Nil
  then show ?case by simp
next
  case (Cons sid order)
  from process_step_total [OF assms(1), of sid st E] Cons.prems
  obtain st1 where p: "process_step E m sid st = Inr st1" by auto
  from process_step_frame(1) [OF p] Cons.prems
  have "set order \<subseteq> set (map step_id (st_steps st1))" by simp
  from Cons.IH [OF this] p show ?case by simp
qed

lemma resolve_dependencies_ids: "set (resolve_dependencies steps) \<subseteq> set (map step_id steps)"
  using kahn_order_distinct [of steps] by (auto simp: resolve_dependencies_def Let_def)

lemma execute_plan_total:
  assumes "0 \<le> m"
  shows "\<exists>sm st. execute_plan E m steps hist w = Inr (sm, st)"
proof -
  from run_order_total [OF assms, of "resolve_dependencies steps" "initial_state steps hist w" E]
    resolve_dependencies_ids [of steps]
  obtain st where "run_order E m (resolve_dependencies steps) (initial_state steps hist w) = Inr st"
    by auto
  then show ?thesis by (simp add: execute_plan_def)
qed

lemma lookup_step_distinct:
  "distinct (map step_id steps) \<Longrightarrow> s \<in> set steps \<Longrightarrow> lookup_step (step_id s) steps = Some s"
  by (induction steps) (auto simp: lookup_step_def)

lemma retry_shape_last:
  "retry_shape n recs \<Longrightarrow> recs \<noteq> [] \<Longrightarrow> rec_status (last recs) = Failed \<or> rec_status (last recs) = Completed"
  by (simp add: retry_shape_def)

lemma final_status:
  assumes ex: "execute_plan E m steps hist w = Inr (sm, st')"
    and dist: "distinct (map step_id steps)"
    and s: "s \<in> set (sm_steps sm)"
  shows "status s = Completed \<or> status s = Failed"
proof -
  note run = execute_plan_Inr [OF ex]
  from run_order_frame(1) [OF run(1)] run(2)
  have ids: "map step_id (sm_steps sm) = map step_id steps" by simp
  with dist s have l': "lookup_step (step_id s) (sm_steps sm) = Some s"
    by (intro lookup_step_distinct) simp_all
  from s ids have "step_id s \<in> set (map step_id steps)"
    by (metis image_eqI list.set_map)
  then obtain step where l: "lookup_step (step_id s) steps = Some step"
    using lookup_step_None [of "step_id s" steps] by (cases "lookup_step (step_id s) steps") auto
  from ex dist l show ?thesis
  proof (cases rule: execute_plan_cases)
    case (gated pre post st_a)
    with l' show ?thesis by auto
  next
    case (attempted pre post st_a recs)
    from retry_shape_last [OF attempted(6,5)] attempted(11) l'
    show ?thesis by (auto simp: step_after_def)
  qed
qed

section \<open>The order and the in-degrees\<close>

lemma fold_count:
  "fold (\<lambda>dep ind. if dep \<in> K then ind(sid := ind sid + 1) else ind) deps ind
     = ind(sid := ind sid + int (length (filter (\<lambda>d. d \<in> K) deps)))"
  by (induction deps arbitrary: ind) (auto simp: fun_eq_iff)

lemma fold_count_graph:
  assumes "distinct (map fst es)"
  shows "fold (\<lambda>(sid, deps) in_degree.
             fold (\<lambda>dep ind. if dep \<in> K then ind(sid := ind sid + 1) else ind) deps in_degree)
           es ind k
         = (case map_of es k of None \<Rightarrow> ind k
            | Some deps \<Rightarrow> ind k + int (length (filter (\<lambda>d. d \<in> K) deps)))"
  using assms
proof (induction es arbitrary: ind)
  case Nil
  then show ?case by simp
next
  case (Cons e es)
  obtain j deps where e: "e = (j, deps)" by (cases e)
  from Cons.prems e have "map_of es j = None"
    by (simp add: map_of_eq_None_iff)
  with Cons.IH [of "ind(j := ind j + int (length (filter (\<lambda>d. d \<in> K) deps)))"] Cons.prems e
  show ?case by (auto simp: fold_count split: option.splits)
qed

lemma count_in_degree_entries:
  assumes "distinct (map fst graph)" and "(k, deps) \<in> set graph"
  shows "count_in_degree graph k = int (plan_entries graph deps)"
proof -
  from assms have "map_of graph k = Some deps" by simp
  with fold_count_graph [OF assms(1), of "set (map fst graph)" "\<lambda>_. 0" k]
  show ?thesis by (simp add: count_in_degree_def plan_entries_def)
qed

lemma fold_relax_char:
  assumes "distinct (map fst es)" and "fold (relax sid) es (ind, q) = (ind', q')"
  shows "(\<forall>k. ind' k = (case map_of es k of None \<Rightarrow> ind k
                         | Some deps \<Rightarrow> if sid \<in> set deps then ind k - 1 else ind k))
       \<and> q' = q @ filter (\<lambda>k. ind' k = 0) (map fst (filter (\<lambda>(k, deps). sid \<in> set deps) es))"
  using assms
proof (induction es arbitrary: ind q)
  case Nil
  then show ?case by simp
next
  case (Cons e es)
  obtain j deps where e: "e = (j, deps)" by (cases e)
  from Cons.prems(1) e have none: "map_of es j = None" and d: "distinct (map fst es)"
    by (simp_all add: map_of_eq_None_iff)
  obtain ind1 q1 where r: "relax sid e (ind, q) = (ind1, q1)"
    by (cases "relax sid e (ind, q)")
  with Cons.prems(2) have f: "fold (relax sid) es (ind1, q1) = (ind', q')" by simp
  note IH = Cons.IH [OF d f]
  from IH none have j: "ind' j = ind1 j" by simp
  show ?case
  proof (cases "sid \<in> set deps")
    case False
    with r e have "ind1 = ind" "q1 = q" by (simp_all add: relax_def)
    with IH False e none show ?thesis by (auto split: option.splits)
  next
    case True
    with r e have i1: "ind1 = ind(j := ind j - 1)"
      and q1: "q1 = (if ind j - 1 = 0 then q @ [j] else q)"
      by (auto simp: relax_def Let_def split: if_splits)
    have "\<forall>k. ind' k = (case map_of (e # es) k of None \<Rightarrow> ind k
                         | Some deps \<Rightarrow> if sid \<in> set deps then ind k - 1 else ind k)"
      using IH i1 True e none by (auto split: option.splits)
    moreover have "q' = q @ filter (\<lambda>k. ind' k = 0)
                          (map fst (filter (\<lambda>(k, deps). sid \<in> set deps) (e # es)))"
      using IH j i1 q1 True e by simp
    ultimately show ?thesis by blast
  qed
qed

lemma zero_in_degree_deps:
  assumes "ind k = int (plan_entries graph deps) - int (card (set deps \<inter> set done))"
    and "ind k = 0" and "set done \<subseteq> fst ` set graph"
  shows "set deps \<inter> fst ` set graph \<subseteq> set done"
proof -
  let ?K = "fst ` set graph"
  have "set (filter (\<lambda>d. d \<in> ?K) deps) = set deps \<inter> ?K" by auto
  then have "card (set deps \<inter> ?K) \<le> plan_entries graph deps"
    unfolding plan_entries_def by (metis card_length)
  moreover from assms(1,2) have "plan_entries graph deps = card (set deps \<inter> set done)" by simp
  ultimately have "card (set deps \<inter> ?K) \<le> card (set deps \<inter> set done)" by simp
  moreover have "set deps \<inter> set done \<subseteq> set deps \<inter> ?K" using assms(3) by auto
  ultimately have "set deps \<inter> set done = set deps \<inter> ?K"
    by (intro card_seteq) simp_all
  then show ?thesis by auto
qed

lemma kahn_invD:
  assumes "kahn_inv graph ind queue order"
  shows "distinct (order @ queue)"
    and "set (order @ queue) \<subseteq> fst ` set graph"
    and "\<And>k deps. (k, deps) \<in> set graph \<Longrightarrow>
           ind k = int (plan_entries graph deps) - int (card (set deps \<inter> set order))"
    and "\<And>k. k \<in> fst ` set graph \<Longrightarrow> ind k = 0 \<longleftrightarrow> k \<in> set (order @ queue)"
    and "\<And>pre k post deps. order = pre @ k # post \<Longrightarrow> (k, deps) \<in> set graph \<Longrightarrow>
           set deps \<inter> fst ` set graph \<subseteq> set pre"
proof -
  from assms have a: "distinct (order @ queue) \<and> set (order @ queue) \<subseteq> fst ` set graph
     \<and> (\<forall>(k, deps) \<in> set graph.
           ind k = int (plan_entries graph deps) - int (card (set deps \<inter> set order)))
     \<and> (\<forall>k \<in> fst ` set graph. ind k = 0 \<longleftrightarrow> k \<in> set (order @ queue))
     \<and> (\<forall>pre k post deps. order = pre @ k # post \<and> (k, deps) \<in> set graph
           \<longrightarrow> set deps \<inter> fst ` set graph \<subseteq> set pre)"
    unfolding kahn_inv_def .
  from a show "distinct (order @ queue)" by (rule conjunct1)
  from a show "set (order @ queue) \<subseteq> fst ` set graph"
    by (rule conjunct2 [THEN conjunct1])
  from a have 3: "\<forall>(k, deps) \<in> set graph.
           ind k = int (plan_entries graph deps) - int (card (set deps \<inter> set order))"
    by (rule conjunct2 [THEN conjunct2, THEN conjunct1])
  show "ind k = int (plan_entries graph deps) - int (card (set deps \<inter> set order))"
    if "(k, deps) \<in> set graph" for k deps
    using 3 that by fast
  from a have 4: "\<forall>k \<in> fst ` set graph. ind k = 0 \<longleftrightarrow> k \<in> set (order @ queue)"
    by (rule conjunct2 [THEN conjunct2, THEN conjunct2, THEN conjunct1])
  show "ind k = 0 \<longleftrightarrow> k \<in> set (order @ queue)" if "k \<in> fst ` set graph" for k
    using 4 that by (rule bspec)
  from a have 5: "\<forall>pre k post deps. order = pre @ k # post \<and> (k, deps) \<in> set graph
           \<longrightarrow> set deps \<inter> fst ` set graph \<subseteq> set pre"
    by (rule conjunct2 [THEN conjunct2, THEN conjunct2, THEN conjunct2])
  show "set deps \<inter> fst ` set graph \<subseteq> set pre"
    if "order = pre @ k # post" "(k, deps) \<in> set graph" for pre k post deps
    using 5 [THEN spec, THEN spec, THEN spec, THEN spec, THEN mp, of pre k post deps] that
    by (simp only: simp_thms)
qed

lemma kahn_invI:
  assumes "distinct (order @ queue)"
    and "set (order @ queue) \<subseteq> fst ` set graph"
    and "\<And>k deps. (k, deps) \<in> set graph \<Longrightarrow>
           ind k = int (plan_entries graph deps) - int (card (set deps \<inter> set order))"
    and "\<And>k. k \<in> fst ` set graph \<Longrightarrow> ind k = 0 \<longleftrightarrow> k \<in> set (order @ queue)"
    and "\<And>pre k post deps. order = pre @ k # post \<Longrightarrow> (k, deps) \<in> set graph \<Longrightarrow>
           set deps \<inter> fst ` set graph \<subseteq> set pre"
  shows "kahn_inv graph ind queue order"
  unfolding kahn_inv_def
proof (intro conjI ballI allI impI)
  show "distinct (order @ queue)" by (rule assms(1))
  show "set (order @ queue) \<subseteq> fst ` set graph" by (rule assms(2))
  show "case x of (k, deps) \<Rightarrow>
          ind k = int (plan_entries graph deps) - int (card (set deps \<inter> set order))"
    if "x \<in> set graph" for x
    using that assms(3) [of "fst x" "snd x"] by (simp add: case_prod_beta)
  show "ind k = 0 \<longleftrightarrow> k \<in> set (order @ queue)" if "k \<in> fst ` set graph" for k
    using that by (rule assms(4))
  show "set deps \<inter> fst ` set graph \<subseteq> set pre"
    if "order = pre @ k # post \<and> (k, deps) \<in> set graph" for pre k post deps
    using that assms(5) [of pre k post deps] by (simp only: simp_thms)
qed

lemma kahn_inv_step:
  assumes d: "distinct (map fst graph)"
    and inv: "kahn_inv graph ind (sid # queue) done"
    and f: "fold (relax sid) graph (ind, queue) = (ind', queue')"
  shows "kahn_inv graph ind' queue' (done @ [sid])"
proof -
  let ?K = "fst ` set graph"
  define new where "new = filter (\<lambda>k. ind' k = 0) (map fst (filter (\<lambda>(k, deps). sid \<in> set deps) graph))"
  note c = fold_relax_char [OF d f]
  from c have q': "queue' = queue @ new" by (simp add: new_def)
  note D = kahn_invD [OF inv]
  note dist = D(1) and sub = D(2) and cnt = D(3) and zero = D(4) and top = D(5)
  from dist have sid_new: "sid \<notin> set done" by simp
  from sub have sid_K: "sid \<in> ?K" and done_K: "set done \<subseteq> ?K" by simp_all
  have ind': "ind' k = (if sid \<in> set deps then ind k - 1 else ind k)"
    if "(k, deps) \<in> set graph" for k deps
  proof -
    from d that have "map_of graph k = Some deps" by simp
    with c show ?thesis by simp
  qed
  have closed: "set deps \<inter> ?K \<subseteq> set done" if "(k, deps) \<in> set graph" "ind k = 0" for k deps
    using cnt [OF that(1)] that(2) done_K by (rule zero_in_degree_deps [of ind k graph deps "done"])
  have nodep: "sid \<notin> set deps" if "(k, deps) \<in> set graph" "ind k = 0" for k deps
    using closed [OF that] sid_new sid_K by auto
  have new_set: "k \<in> set new \<longleftrightarrow> (\<exists>deps. (k, deps) \<in> set graph \<and> sid \<in> set deps \<and> ind' k = 0)" for k
    by (auto simp: new_def) force
  have new_dist: "distinct new"
    using d by (simp add: new_def distinct_map_filter)
  have new_fresh: "k \<notin> set (done @ sid # queue)" if "k \<in> set new" for k
  proof
    assume in_old: "k \<in> set (done @ sid # queue)"
    from that new_set obtain deps where g: "(k, deps) \<in> set graph" and s: "sid \<in> set deps"
      by blast
    from g have "k \<in> ?K" by force
    with in_old zero have "ind k = 0" by blast
    from nodep [OF g this] s show False by simp
  qed
  have 1: "distinct ((done @ [sid]) @ queue')"
    using dist new_dist new_fresh unfolding q' by auto
  have 2: "set ((done @ [sid]) @ queue') \<subseteq> ?K"
  proof -
    have "set new \<subseteq> ?K" using new_set by force
    with sub show ?thesis unfolding q' by auto
  qed
  have 3: "ind' k = int (plan_entries graph deps) - int (card (set deps \<inter> set (done @ [sid])))"
    if "(k, deps) \<in> set graph" for k deps
  proof (cases "sid \<in> set deps")
    case False
    then have "set deps \<inter> set (done @ [sid]) = set deps \<inter> set done" by auto
    with ind' [OF that] cnt [OF that] False show ?thesis by simp
  next
    case True
    then have "set deps \<inter> set (done @ [sid]) = insert sid (set deps \<inter> set done)" by auto
    moreover have "sid \<notin> set deps \<inter> set done" using sid_new by simp
    ultimately have "card (set deps \<inter> set (done @ [sid])) = Suc (card (set deps \<inter> set done))"
      by simp
    with ind' [OF that] cnt [OF that] True show ?thesis by simp
  qed
  have 4: "ind' k = 0 \<longleftrightarrow> k \<in> set ((done @ [sid]) @ queue')" if "k \<in> ?K" for k
  proof -
    from that obtain deps where g: "(k, deps) \<in> set graph" by force
    show ?thesis
    proof (cases "sid \<in> set deps")
      case True
      have "k \<notin> set (done @ sid # queue)"
      proof
        assume "k \<in> set (done @ sid # queue)"
        with zero [OF that] have "ind k = 0" by simp
        from nodep [OF g this] True show False by simp
      qed
      moreover have "k \<in> set new \<longleftrightarrow> ind' k = 0"
      proof
        assume "k \<in> set new"
        with new_set show "ind' k = 0" by blast
      next
        assume "ind' k = 0"
        with g True new_set show "k \<in> set new" by blast
      qed
      ultimately show ?thesis unfolding q' by auto
    next
      case False
      have "k \<notin> set new"
      proof
        assume "k \<in> set new"
        with new_set obtain deps' where g': "(k, deps') \<in> set graph" and s: "sid \<in> set deps'"
          by blast
        from d g g' have "deps' = deps" by (metis map_of_is_SomeI option.inject)
        with s False show False by simp
      qed
      moreover from ind' [OF g] False have "ind' k = ind k" by simp
      ultimately show ?thesis using zero [OF that] unfolding q' by auto
    qed
  qed
  have 5: "set deps \<inter> ?K \<subseteq> set pre"
    if "done @ [sid] = pre @ k # post" "(k, deps) \<in> set graph" for pre k post deps
  proof (cases post rule: rev_cases)
    case Nil
    with that(1) have "pre = done" "k = sid" by simp_all
    moreover have "ind sid = 0" using zero [OF sid_K] by simp
    ultimately show ?thesis using closed [of sid deps] that(2) by simp
  next
    case (snoc ps p)
    with that(1) have "done = pre @ k # ps" by simp
    from top [OF this that(2)] show ?thesis .
  qed
  show ?thesis
    using 1 2 3 4 5 by (rule kahn_invI)
qed

lemma kahn_loop_inv:
  "distinct (map fst graph) \<Longrightarrow> kahn_inv graph ind queue order \<Longrightarrow>
   \<exists>ind'. kahn_inv graph ind' [] (kahn_loop graph ind queue order)"
proof (induction graph ind queue order rule: kahn_loop.induct)
  case (1 graph in_degree execution_order)
  then show ?case by auto
next
  case (2 graph in_degree sid queue execution_order)
  obtain ind' queue' where f: "fold (relax sid) graph (in_degree, queue) = (ind', queue')"
    by (cases "fold (relax sid) graph (in_degree, queue)")
  from kahn_inv_step [OF "2.prems"(1,2) f]
  have "kahn_inv graph ind' queue' (execution_order @ [sid])" .
  from "2.IH" [OF f [symmetric] "2.prems"(1) this] f show ?case by simp
qed

lemma build_graph_distinct_aux:
  "distinct (map step_id steps) \<Longrightarrow> step_id ` set steps \<inter> fst ` set g = {} \<Longrightarrow>
   fold (\<lambda>s graph. dict_set (step_id s) (dependencies s) graph) steps g
     = g @ map (\<lambda>s. (step_id s, dependencies s)) steps"
proof (induction steps arbitrary: g)
  case Nil
  then show ?case by simp
next
  case (Cons s steps)
  from Cons.prems have new: "step_id s \<notin> fst ` set g" by auto
  have "step_id ` set steps \<inter> fst ` set (g @ [(step_id s, dependencies s)]) = {}"
    using Cons.prems by auto
  with Cons.IH [of "g @ [(step_id s, dependencies s)]"] Cons.prems new show ?case
    by (simp add: dict_set_new)
qed

lemma build_graph_distinct:
  "distinct (map step_id steps) \<Longrightarrow>
   build_graph steps = map (\<lambda>s. (step_id s, dependencies s)) steps"
  using build_graph_distinct_aux [of steps "[]"] by (simp add: build_graph_def)

lemma kahn_order_inv:
  "\<exists>ind. kahn_inv (build_graph steps) ind [] (kahn_order steps)"
proof -
  let ?g = "build_graph steps"
  let ?ind = "count_in_degree ?g"
  let ?q = "filter (\<lambda>k. ?ind k = 0) (map fst ?g)"
  have d: "distinct (map fst ?g)" by (rule build_graph_keys(1))
  have "kahn_inv ?g ?ind ?q []"
  proof (rule kahn_invI)
    show "distinct ([] @ ?q)" using d by simp
    show "set ([] @ ?q) \<subseteq> fst ` set ?g" by auto
    show "?ind k = int (plan_entries ?g deps) - int (card (set deps \<inter> set []))"
      if "(k, deps) \<in> set ?g" for k deps
      using count_in_degree_entries [OF d that] by simp
    show "?ind k = 0 \<longleftrightarrow> k \<in> set ([] @ ?q)" if "k \<in> fst ` set ?g" for k
      using that by auto
    show "set deps \<inter> fst ` set ?g \<subseteq> set pre"
      if "[] = pre @ k # post" "(k, deps) \<in> set ?g" for pre k post deps
      using that by simp
  qed
  from kahn_loop_inv [OF d this] show ?thesis
    by (simp add: kahn_order_def Let_def)
qed

text \<open>
  What the while loop takes, for a plan with distinct identifiers: a step exactly when the
  entries of its dependency list that name a step of the plan are as many as its dependencies
  that the loop takes, and then after all of them.
\<close>

lemma kahn_order_taken:
  assumes "distinct (map step_id steps)" and "s \<in> set steps"
  shows "step_id s \<in> set (kahn_order steps) \<longleftrightarrow>
           length (filter (\<lambda>d. d \<in> set (map step_id steps)) (dependencies s))
             = card (set (dependencies s) \<inter> set (kahn_order steps))"
    and "kahn_order steps = pre @ step_id s # post \<Longrightarrow>
           set (dependencies s) \<inter> set (map step_id steps) \<subseteq> set pre"
proof -
  let ?g = "build_graph steps"
  from kahn_order_inv obtain ind where inv: "kahn_inv ?g ind [] (kahn_order steps)" by blast
  note D = kahn_invD [OF inv]
  have g: "?g = map (\<lambda>s. (step_id s, dependencies s)) steps"
    using assms(1) by (rule build_graph_distinct)
  have K: "fst ` set ?g = set (map step_id steps)"
    using build_graph_keys(2) [of steps] by simp
  from assms(2) g have mem: "(step_id s, dependencies s) \<in> set ?g" by auto
  then have k: "step_id s \<in> fst ` set ?g" by force
  have cnt: "ind (step_id s) = int (plan_entries ?g (dependencies s))
        - int (card (set (dependencies s) \<inter> set (kahn_order steps)))"
    using D(3) [OF mem] .
  have "step_id s \<in> set (kahn_order steps) \<longleftrightarrow> ind (step_id s) = 0"
    using D(4) [OF k] by simp
  also have "\<dots> \<longleftrightarrow> plan_entries ?g (dependencies s)
                      = card (set (dependencies s) \<inter> set (kahn_order steps))"
    using cnt by auto
  finally show "step_id s \<in> set (kahn_order steps) \<longleftrightarrow>
           length (filter (\<lambda>d. d \<in> set (map step_id steps)) (dependencies s))
             = card (set (dependencies s) \<inter> set (kahn_order steps))"
    by (simp add: plan_entries_def K)
  show "set (dependencies s) \<inter> set (map step_id steps) \<subseteq> set pre"
    if "kahn_order steps = pre @ step_id s # post"
    using D(5) [OF that mem] K by simp
qed

lemma tool_calls_append:
  "tool_calls E step ctx w xs w1 \<Longrightarrow> tool_calls E step ctx w1 ys w2 \<Longrightarrow>
   tool_calls E step ctx w (xs @ ys) w2"
  by (induction xs arbitrary: w) (auto split: prod.splits sum.splits)

lemma execute_step_call:
  assumes "execute_step E step st = (r, st')"
  shows "\<exists>rec. st_history st' = st_history st @ [rec]
           \<and> tool_calls E step (st_context st) (st_world st) [rec] (st_world st')"
  using assms
  by (auto simp: execute_step_def Let_def set_status_def set_result_def
      split: prod.splits sum.splits)

lemma retry_loop_calls:
  assumes "retry_loop E m step rc res st = (res', st')"
  shows "\<exists>recs. st_history st' = st_history st @ recs
           \<and> tool_calls E step (st_context st) (st_world st) recs (st_world st')"
  using assms
proof (induction E m step rc res st arbitrary: res' st' rule: retry_loop.induct)
  case (1 E m step rc res st)
  show ?case
  proof (cases "rc \<le> m")
    case False
    with "1.prems" have "st' = st"
      by (simp add: retry_loop.simps [of E m step rc res st])
    then show ?thesis by (intro exI [of _ "[]"]) simp
  next
    case True
    obtain r st1 where ex: "execute_step E step st = (r, st1)"
      by (cases "execute_step E step st")
    from execute_step_call [OF ex] obtain rec where
      h: "st_history st1 = st_history st @ [rec]"
      and t: "tool_calls E step (st_context st) (st_world st) [rec] (st_world st1)"
      by blast
    note c = execute_step_effect(3) [OF ex]
    show ?thesis
    proof (cases "succeeded r")
      case suc: True
      with "1.prems" True ex have "st' = st1"
        by (simp add: retry_loop.simps [of E m step rc res st])
      with h t show ?thesis by blast
    next
      case fail: False
      have st2: "(if rc + 1 \<le> m then st1\<lparr>st_context := dict_update (st_context st1) (extract_context r)\<rparr> else st1) = st1"
        using fail by (simp add: extract_context_failed)
      from "1.prems" True ex fail st2
      have rec: "retry_loop E m step (rc + 1) (Some r) st1 = (res', st')"
        by (simp add: retry_loop.simps [of E m step rc res st] Let_def)
      from "1.IH" [OF True ex [symmetric] fail refl refl, unfolded st2, OF rec]
      obtain recs where
        H: "st_history st' = st_history st1 @ recs"
        and T: "tool_calls E step (st_context st1) (st_world st1) recs (st_world st')"
        by blast
      from t T c have "tool_calls E step (st_context st) (st_world st) ([rec] @ recs) (st_world st')"
        by (intro tool_calls_append [of E step "st_context st" "st_world st" "[rec]" "st_world st1"])
          simp_all
      with H h show ?thesis by (intro exI [of _ "[rec] @ recs"]) simp
    qed
  qed
qed

lemma process_step_calls:
  assumes "process_step E m sid st = Inr st'" and "lookup_step sid (st_steps st) = Some step"
  shows "\<exists>recs. st_history st' = st_history st @ recs
           \<and> tool_calls E step (st_context st) (st_world st) recs (st_world st')"
proof (cases "dependencies_satisfied step (st_steps st)")
  case False
  from process_step_gated [OF assms(2) False, of E m] assms(1)
  show ?thesis by (intro exI [of _ "[]"]) auto
next
  case True
  obtain res st1 where rl: "retry_loop E m step 0 None st = (res, st1)"
    by (cases "retry_loop E m step 0 None st")
  from retry_loop_calls [OF rl] obtain recs where
    h: "st_history st1 = st_history st @ recs"
    and t: "tool_calls E step (st_context st) (st_world st) recs (st_world st1)"
    by blast
  from assms True rl have "st_history st' = st_history st1 \<and> st_world st' = st_world st1"
    by (auto simp: process_step_def Let_def split: option.splits if_splits)
  with h t show ?thesis by auto
qed

section \<open>One pass over the execution order\<close>

lemma run_order_groups:
  assumes "run_order E m order st = Inr st'"
  shows "\<exists>groups. list_all2 (\<lambda>sid g. \<forall>r \<in> set g. rec_step_id r = sid) order groups
           \<and> st_history st' = st_history st @ concat groups"
  using assms
proof (induction order arbitrary: st)
  case Nil
  then show ?case by simp
next
  case (Cons sid order)
  from Cons.prems obtain st1 where p: "process_step E m sid st = Inr st1"
    and r: "run_order E m order st1 = Inr st'"
    by (auto split: sum.splits)
  from p have "\<exists>g. (\<forall>r \<in> set g. rec_step_id r = sid) \<and> st_history st1 = st_history st @ g"
  proof (cases rule: process_step_cases)
    case (gated step)
    then show ?thesis by (intro exI [of _ "[]"]) simp
  next
    case (attempted step recs)
    then show ?thesis by (intro exI [of _ recs]) simp
  qed
  then obtain g where g: "\<forall>r \<in> set g. rec_step_id r = sid"
    and h: "st_history st1 = st_history st @ g"
    by blast
  from Cons.IH [OF r] obtain groups where
    l: "list_all2 (\<lambda>sid g. \<forall>r \<in> set g. rec_step_id r = sid) order groups"
    and H: "st_history st' = st_history st1 @ concat groups"
    by blast
  from g l h H show ?case
    by (intro exI [of _ "g # groups"]) simp
qed

lemma groups_ids:
  "list_all2 (\<lambda>sid g. \<forall>r \<in> set g. rec_step_id r = sid) order groups \<Longrightarrow>
   \<forall>r \<in> set (concat groups). rec_step_id r \<in> set order"
  by (induction rule: list_all2_induct) auto

lemma concat_groups:
  "list_all2 (\<lambda>sid g. \<forall>r \<in> set g. rec_step_id r = sid) order groups \<Longrightarrow> distinct order \<Longrightarrow>
   concat (map (\<lambda>sid. recs_of sid (concat groups)) order) = concat groups"
proof (induction rule: list_all2_induct)
  case Nil
  then show ?case by simp
next
  case (Cons k ks g gs)
  from Cons.prems have k: "k \<notin> set ks" and d: "distinct ks" by simp_all
  have kg: "recs_of k (concat (g # gs)) = g"
  proof -
    from groups_ids [OF Cons.hyps(2)] k have "\<forall>r \<in> set (concat gs). rec_step_id r \<noteq> k"
      by blast
    then have "recs_of k (concat gs) = []" by (simp add: recs_of_def filter_empty_conv)
    moreover have "recs_of k g = g"
      using Cons.hyps(1) by (intro recs_of_same) simp
    ultimately show ?thesis by simp
  qed
  have tail: "map (\<lambda>sid. recs_of sid (concat (g # gs))) ks
                   = map (\<lambda>sid. recs_of sid (concat gs)) ks"
  proof (rule map_cong [OF refl])
    fix sid assume "sid \<in> set ks"
    with k have "sid \<noteq> k" by auto
    with Cons.hyps(1) have "recs_of sid g = []"
      by (intro recs_of_other [of g k sid]) simp_all
    then show "recs_of sid (concat (g # gs)) = recs_of sid (concat gs)" by simp
  qed
  have "concat (map (\<lambda>sid. recs_of sid (concat (g # gs))) (k # ks))
          = recs_of k (concat (g # gs)) @ concat (map (\<lambda>sid. recs_of sid (concat (g # gs))) ks)"
    by (simp only: list.map concat.simps)
  also have "\<dots> = g @ concat (map (\<lambda>sid. recs_of sid (concat gs)) ks)"
    by (simp only: kg tail)
  also have "\<dots> = g @ concat gs"
    by (simp only: Cons.IH [OF d])
  finally show ?case by simp
qed

lemma execute_plan_grouped:
  assumes "execute_plan E m steps hist w = Inr (sm, st')" and "distinct (map step_id steps)"
  shows "new_records hist (sm_execution_history sm)
           = concat (map (\<lambda>sid. recs_of sid (new_records hist (sm_execution_history sm)))
                       (resolve_dependencies steps))"
proof -
  note run = execute_plan_Inr [OF assms(1)]
  from run_order_groups [OF run(1)] obtain groups where
    l: "list_all2 (\<lambda>sid g. \<forall>r \<in> set g. rec_step_id r = sid) (resolve_dependencies steps) groups"
    and h: "st_history st' = hist @ concat groups"
    by auto
  from h run(2) have "new_records hist (sm_execution_history sm) = concat groups" by simp
  with concat_groups [OF l resolve_dependencies_perm(1) [OF assms(2)]] show ?thesis by simp
qed

text \<open>
  The pass of the loop body over one step of a plan with distinct identifiers: the state in
  which the step is reached, the state in which it is left, and what the pass leaves in the
  summary.
\<close>

lemma execute_plan_pass:
  assumes ex: "execute_plan E m steps hist w = Inr (sm, st')"
    and dist: "distinct (map step_id steps)"
    and look: "lookup_step sid steps = Some step"
  obtains pre post st_a st_b where
    "resolve_dependencies steps = pre @ sid # post"
    "run_order E m pre (initial_state steps hist w) = Inr st_a"
    "process_step E m sid st_a = Inr st_b"
    "run_order E m post st_b = Inr st'"
    "lookup_step sid (st_steps st_a) = Some step"
    "st_history st_b
       = st_history st_a @ recs_of sid (new_records hist (sm_execution_history sm))"
    "tool_calls E step (st_context st_a) (st_world st_a)
       (recs_of sid (new_records hist (sm_execution_history sm))) (st_world st_b)"
    "log_of sid (st_status_log st') = log_of sid (st_status_log st_b)"
    "log_of sid (st_status_log st_a) = []"
    "map_of (sm_results sm) sid = map_of (st_results st_b) sid"
    "lookup_step sid (sm_steps sm) = lookup_step sid (st_steps st_b)"
proof -
  let ?i = "initial_state steps hist w"
  note run = execute_plan_Inr [OF ex]
  from look have sid: "sid \<in> set (resolve_dependencies steps)"
    using resolve_dependencies_perm(2) [OF dist] lookup_step_None [of sid steps] by auto
  from run(1) sid resolve_dependencies_perm(1) [OF dist]
  obtain pre post st_a st_b where
    o: "resolve_dependencies steps = pre @ sid # post"
    and n: "sid \<notin> set pre" "sid \<notin> set post"
    and a: "run_order E m pre ?i = Inr st_a"
    and b: "process_step E m sid st_a = Inr st_b"
    and c: "run_order E m post st_b = Inr st'"
    by (rule run_order_split)
  from run_order_frame(3) [OF a n(1)] have ua: "unchanged_for sid ?i st_a" .
  from run_order_frame(3) [OF c n(2)] have uc: "unchanged_for sid st_b st'" .
  from run_order_frame(2) [OF run(1)] obtain new where new: "st_history st' = hist @ new"
    by auto
  from ua look have la: "lookup_step sid (st_steps st_a) = Some step"
    by (simp add: unchanged_for_def)
  from ua have ha: "recs_of sid (st_history st_a) = recs_of sid hist"
    and ga: "log_of sid (st_status_log st_a) = []"
    by (simp_all add: unchanged_for_def log_of_def)
  from uc have hc: "recs_of sid (st_history st') = recs_of sid (st_history st_b)"
    and gc: "log_of sid (st_status_log st') = log_of sid (st_status_log st_b)"
    and rc: "map_of (st_results st') sid = map_of (st_results st_b) sid"
    and lc: "lookup_step sid (st_steps st') = lookup_step sid (st_steps st_b)"
    by (simp_all add: unchanged_for_def)
  from process_step_calls [OF b la] obtain recs where
    h: "st_history st_b = st_history st_a @ recs"
    and t: "tool_calls E step (st_context st_a) (st_world st_a) recs (st_world st_b)"
    by blast
  have ids: "\<forall>r \<in> set recs. rec_step_id r = sid"
    using b
  proof (cases rule: process_step_cases)
    case (gated step')
    with h show ?thesis by simp
  next
    case (attempted step' recs')
    with h show ?thesis by simp
  qed
  then have same: "recs_of sid recs = recs" by (rule recs_of_same)
  have "recs_of sid hist @ recs_of sid new = recs_of sid hist @ recs"
    using hc new h ha same by simp
  then have r: "recs_of sid (new_records hist (sm_execution_history sm)) = recs"
    using run(2) new by simp
  from o a b c la h t gc ga rc lc run(2) show thesis
    unfolding r [symmetric] by (intro that [of pre post st_a st_b]) simp_all
qed

section \<open>Every step is processed once\<close>

lemma process_step_pass:
  assumes b: "process_step E m sid st_a = Inr st_b"
    and la: "lookup_step sid (st_steps st_a) = Some step"
    and h: "st_history st_b = st_history st_a @ recs"
    and ga: "log_of sid (st_status_log st_a) = []"
  shows "(\<forall>r \<in> set recs. rec_step_id r = sid \<and> rec_tool r = tool step
            \<and> rec_status r = outcome_status (rec_result r))
       \<and> (if dependencies_satisfied step (st_steps st_a)
          then recs \<noteq> [] \<and> retry_shape (nat (1 + m)) recs
               \<and> log_of sid (st_status_log st_b)
                   = concat (map (\<lambda>r. [InProgress, rec_status r]) recs)
               \<and> map_of (st_results st_b) sid = Some (rec_result (last recs))
               \<and> lookup_step sid (st_steps st_b) = Some (step_after (last recs) step)
          else recs = [] \<and> log_of sid (st_status_log st_b) = [Failed]
               \<and> map_of (st_results st_b) sid = Some dependency_failure
               \<and> lookup_step sid (st_steps st_b) = Some (step\<lparr>status := Failed\<rparr>))"
  using b
proof (cases rule: process_step_cases)
  case (gated step')
  with la have [simp]: "step' = step" by simp
  from gated(3) h have [simp]: "recs = []" by simp
  have "log_of sid (st_status_log st_b) = [Failed]"
    using gated(4) ga by (simp add: log_of_def)
  moreover have "map_of (st_results st_b) sid = Some dependency_failure"
    using gated(5) by (simp add: map_of_dict_set)
  moreover have "lookup_step sid (st_steps st_b) = Some (step\<lparr>status := Failed\<rparr>)"
    using gated(8) la by (simp add: lookup_update_first_same)
  ultimately show ?thesis using gated(2) by simp
next
  case (attempted step' recs')
  with la have [simp]: "step' = step" by simp
  from attempted(4) h have [simp]: "recs' = recs" by simp
  have "log_of sid (st_status_log st_b) = concat (map (\<lambda>r. [InProgress, rec_status r]) recs)"
    using attempted(7) ga by (simp add: log_of_attempt_log_same)
  moreover have "map_of (st_results st_b) sid = Some (rec_result (last recs))"
    using attempted(8) by (simp add: map_of_dict_set)
  moreover have "lookup_step sid (st_steps st_b) = Some (step_after (last recs) step)"
    using attempted(10) la by (simp add: lookup_update_first_same)
  moreover have "retry_shape (nat (1 + m)) recs"
    using attempted(5) by (simp add: add.commute)
  moreover have "\<forall>r \<in> set recs. rec_step_id r = sid \<and> rec_tool r = tool step
            \<and> rec_status r = outcome_status (rec_result r)"
    using attempted(6) by simp
  ultimately show ?thesis using attempted(2,3) by simp
qed

text \<open>
  Claim C4. For a plan with distinct step identifiers, with or without a dependency cycle:

  \<^item> the execution order holds every step identifier of the plan exactly once;
  \<^item> it is the order in which the while loop took identifiers from its queue, followed by
    the identifiers it never took, in the order of the plan;
  \<^item> the loop takes a step exactly when its in-degree reaches zero, that is when the
    entries of its dependency list that name a step of the plan are as many as its
    dependencies that the loop takes, and it takes the step after all of these;
  \<^item> with a retry bound that is not negative the run returns its summary, every function on
    the way being total;
  \<^item> the records added to the history are those of the steps, step after step in the
    execution order;
  \<^item> every step is passed once: the steps before it in the order lead to the state in which
    it is reached, one pass of the loop body leads to the state in which it is left, and the
    steps after it lead to the final state. The records of the step in the whole run are the
    records of that pass; they are the outcomes of consecutive tool calls, which take the
    world from where the pass found it to where it left it. With its dependencies satisfied
    the step is attempted at least once and at most \<open>1 + max_retries\<close> times, a success
    only last, and its status assignments, result and final state are those of these
    attempts; otherwise it has no record, is set to failed once and has the
    dependencies-not-satisfied result.
\<close>

theorem every_step_once:
  assumes "distinct (map step_id steps)"
  shows "distinct (resolve_dependencies steps)
       \<and> set (resolve_dependencies steps) = set (map step_id steps)
       \<and> resolve_dependencies steps
           = kahn_order steps @ filter (\<lambda>i. i \<notin> set (kahn_order steps)) (map step_id steps)
       \<and> (\<forall>s \<in> set steps.
             step_id s \<in> set (kahn_order steps) \<longleftrightarrow>
               length (filter (\<lambda>d. d \<in> set (map step_id steps)) (dependencies s))
                 = card (set (dependencies s) \<inter> set (kahn_order steps)))
       \<and> (\<forall>s \<in> set steps. \<forall>pre post. kahn_order steps = pre @ step_id s # post
             \<longrightarrow> set (dependencies s) \<inter> set (map step_id steps) \<subseteq> set pre)
       \<and> (0 \<le> max_retries \<longrightarrow>
            (\<exists>sm st. execute_plan E max_retries steps hist w = Inr (sm, st)
               \<and> map step_id (sm_steps sm) = map step_id steps
               \<and> new_records hist (sm_execution_history sm)
                   = concat (map (\<lambda>sid. run_records sid hist sm) (resolve_dependencies steps))
               \<and> (\<forall>s \<in> set steps. \<exists>pre post st_a st_b.
                     resolve_dependencies steps = pre @ step_id s # post
                     \<and> run_order E max_retries pre (initial_state steps hist w) = Inr st_a
                     \<and> process_step E max_retries (step_id s) st_a = Inr st_b
                     \<and> run_order E max_retries post st_b = Inr st
                     \<and> lookup_step (step_id s) (st_steps st_a) = Some s
                     \<and> st_history st_b = st_history st_a @ run_records (step_id s) hist sm
                     \<and> tool_calls E s (st_context st_a) (st_world st_a)
                          (run_records (step_id s) hist sm) (st_world st_b)
                     \<and> (\<forall>r \<in> set (run_records (step_id s) hist sm).
                           rec_step_id r = step_id s \<and> rec_tool r = tool s
                           \<and> rec_status r = outcome_status (rec_result r))
                     \<and> (if dependencies_satisfied s (st_steps st_a)
                        then run_records (step_id s) hist sm \<noteq> []
                           \<and> retry_shape (nat (1 + max_retries)) (run_records (step_id s) hist sm)
                           \<and> log_of (step_id s) (st_status_log st)
                               = concat (map (\<lambda>r. [InProgress, rec_status r])
                                           (run_records (step_id s) hist sm))
                           \<and> map_of (sm_results sm) (step_id s)
                               = Some (rec_result (last (run_records (step_id s) hist sm)))
                           \<and> lookup_step (step_id s) (sm_steps sm)
                               = Some (step_after (last (run_records (step_id s) hist sm)) s)
                        else run_records (step_id s) hist sm = []
                           \<and> log_of (step_id s) (st_status_log st) = [Failed]
                           \<and> map_of (sm_results sm) (step_id s) = Some dependency_failure
                           \<and> lookup_step (step_id s) (sm_steps sm)
                               = Some (s\<lparr>status := Failed\<rparr>)))))"
proof (intro conjI impI ballI allI)
  show "distinct (resolve_dependencies steps)"
    using assms by (rule resolve_dependencies_perm(1))
  show "set (resolve_dependencies steps) = set (map step_id steps)"
    using assms by (rule resolve_dependencies_perm(2))
  show "resolve_dependencies steps
           = kahn_order steps @ filter (\<lambda>i. i \<notin> set (kahn_order steps)) (map step_id steps)"
    by (simp add: resolve_dependencies_def Let_def)
  show "step_id s \<in> set (kahn_order steps) \<longleftrightarrow>
               length (filter (\<lambda>d. d \<in> set (map step_id steps)) (dependencies s))
                 = card (set (dependencies s) \<inter> set (kahn_order steps))"
    if "s \<in> set steps" for s
    using assms that by (rule kahn_order_taken(1))
  show "set (dependencies s) \<inter> set (map step_id steps) \<subseteq> set pre"
    if "s \<in> set steps" "kahn_order steps = pre @ step_id s # post" for s pre post
    using assms that by (rule kahn_order_taken(2))
next
  assume m: "0 \<le> max_retries"
  from execute_plan_total [OF m, of E steps hist w] obtain sm st where
    ex: "execute_plan E max_retries steps hist w = Inr (sm, st)" by blast
  note run = execute_plan_Inr [OF ex]
  from run_order_frame(1) [OF run(1)] run(2)
  have ids: "map step_id (sm_steps sm) = map step_id steps" by simp
  have grouped: "new_records hist (sm_execution_history sm)
                   = concat (map (\<lambda>sid. run_records sid hist sm) (resolve_dependencies steps))"
    using execute_plan_grouped [OF ex assms] by (simp add: run_records_def)
  have pass: "\<exists>pre post st_a st_b.
                     resolve_dependencies steps = pre @ step_id s # post
                     \<and> run_order E max_retries pre (initial_state steps hist w) = Inr st_a
                     \<and> process_step E max_retries (step_id s) st_a = Inr st_b
                     \<and> run_order E max_retries post st_b = Inr st
                     \<and> lookup_step (step_id s) (st_steps st_a) = Some s
                     \<and> st_history st_b = st_history st_a @ run_records (step_id s) hist sm
                     \<and> tool_calls E s (st_context st_a) (st_world st_a)
                          (run_records (step_id s) hist sm) (st_world st_b)
                     \<and> (\<forall>r \<in> set (run_records (step_id s) hist sm).
                           rec_step_id r = step_id s \<and> rec_tool r = tool s
                           \<and> rec_status r = outcome_status (rec_result r))
                     \<and> (if dependencies_satisfied s (st_steps st_a)
                        then run_records (step_id s) hist sm \<noteq> []
                           \<and> retry_shape (nat (1 + max_retries)) (run_records (step_id s) hist sm)
                           \<and> log_of (step_id s) (st_status_log st)
                               = concat (map (\<lambda>r. [InProgress, rec_status r])
                                           (run_records (step_id s) hist sm))
                           \<and> map_of (sm_results sm) (step_id s)
                               = Some (rec_result (last (run_records (step_id s) hist sm)))
                           \<and> lookup_step (step_id s) (sm_steps sm)
                               = Some (step_after (last (run_records (step_id s) hist sm)) s)
                        else run_records (step_id s) hist sm = []
                           \<and> log_of (step_id s) (st_status_log st) = [Failed]
                           \<and> map_of (sm_results sm) (step_id s) = Some dependency_failure
                           \<and> lookup_step (step_id s) (sm_steps sm)
                               = Some (s\<lparr>status := Failed\<rparr>))"
    if s: "s \<in> set steps" for s
  proof -
    from assms s have look: "lookup_step (step_id s) steps = Some s"
      by (rule lookup_step_distinct)
    from ex assms look obtain pre post st_a st_b where
      o: "resolve_dependencies steps = pre @ step_id s # post"
      and a: "run_order E max_retries pre (initial_state steps hist w) = Inr st_a"
      and b: "process_step E max_retries (step_id s) st_a = Inr st_b"
      and c: "run_order E max_retries post st_b = Inr st"
      and la: "lookup_step (step_id s) (st_steps st_a) = Some s"
      and h: "st_history st_b = st_history st_a @ run_records (step_id s) hist sm"
      and t: "tool_calls E s (st_context st_a) (st_world st_a)
                (run_records (step_id s) hist sm) (st_world st_b)"
      and gc: "log_of (step_id s) (st_status_log st) = log_of (step_id s) (st_status_log st_b)"
      and ga: "log_of (step_id s) (st_status_log st_a) = []"
      and rc: "map_of (sm_results sm) (step_id s) = map_of (st_results st_b) (step_id s)"
      and lc: "lookup_step (step_id s) (sm_steps sm) = lookup_step (step_id s) (st_steps st_b)"
      unfolding run_records_def by (rule execute_plan_pass)
    note p = process_step_pass [OF b la h ga, folded gc rc lc]
    from o a b c la h t p show ?thesis by blast
  qed
  from ex ids grouped pass
  show "\<exists>sm st. execute_plan E max_retries steps hist w = Inr (sm, st)
               \<and> map step_id (sm_steps sm) = map step_id steps
               \<and> new_records hist (sm_execution_history sm)
                   = concat (map (\<lambda>sid. run_records sid hist sm) (resolve_dependencies steps))
               \<and> (\<forall>s \<in> set steps. \<exists>pre post st_a st_b.
                     resolve_dependencies steps = pre @ step_id s # post
                     \<and> run_order E max_retries pre (initial_state steps hist w) = Inr st_a
                     \<and> process_step E max_retries (step_id s) st_a = Inr st_b
                     \<and> run_order E max_retries post st_b = Inr st
                     \<and> lookup_step (step_id s) (st_steps st_a) = Some s
                     \<and> st_history st_b = st_history st_a @ run_records (step_id s) hist sm
                     \<and> tool_calls E s (st_context st_a) (st_world st_a)
                          (run_records (step_id s) hist sm) (st_world st_b)
                     \<and> (\<forall>r \<in> set (run_records (step_id s) hist sm).
                           rec_step_id r = step_id s \<and> rec_tool r = tool s
                           \<and> rec_status r = outcome_status (rec_result r))
                     \<and> (if dependencies_satisfied s (st_steps st_a)
                        then run_records (step_id s) hist sm \<noteq> []
                           \<and> retry_shape (nat (1 + max_retries)) (run_records (step_id s) hist sm)
                           \<and> log_of (step_id s) (st_status_log st)
                               = concat (map (\<lambda>r. [InProgress, rec_status r])
                                           (run_records (step_id s) hist sm))
                           \<and> map_of (sm_results sm) (step_id s)
                               = Some (rec_result (last (run_records (step_id s) hist sm)))
                           \<and> lookup_step (step_id s) (sm_steps sm)
                               = Some (step_after (last (run_records (step_id s) hist sm)) s)
                        else run_records (step_id s) hist sm = []
                           \<and> log_of (step_id s) (st_status_log st) = [Failed]
                           \<and> map_of (sm_results sm) (step_id s) = Some dependency_failure
                           \<and> lookup_step (step_id s) (sm_steps sm)
                               = Some (s\<lparr>status := Failed\<rparr>)))"
    by (intro exI [of _ sm] exI [of _ st] conjI ballI)
qed


lemma cyclic_kahn_order: "kahn_order cyclic_plan = [3, 2]"
  by (simp add: cyclic_plan_def PlanStep_def kahn_order_def build_graph_def count_in_degree_def
      relax_def)

lemma cyclic_ids: "map step_id cyclic_plan = [0, 1, 2, 3]"
  by (simp add: cyclic_plan_def PlanStep_def)

lemma cyclic_order: "resolve_dependencies cyclic_plan = [3, 2, 0, 1]"
  by (simp add: resolve_dependencies_def cyclic_kahn_order cyclic_ids)

lemma cyclic_run:
  "\<exists>sm st. execute_plan example_env 2 cyclic_plan [] 0 = Inr (sm, st)
     \<and> sm_execution_history sm = cyclic_history
     \<and> map status (sm_steps sm) = [Failed, Failed, Completed, Completed]
     \<and> st_status_log st = [(3, InProgress), (3, Failed), (3, InProgress), (3, Completed),
          (2, InProgress), (2, Completed), (0, Failed), (1, Failed)]
     \<and> st_world st = 3"
  unfolding execute_plan_def cyclic_order Let_def
  by (simp add: initial_state_def process_step_def
      cyclic_plan_def PlanStep_def lookup_step_def dependencies_satisfied_def
      retry_loop.simps execute_step_def set_status_def set_result_def example_env_def
      example_tools_def resolve_parameters_def resolve_value_def starts_with_def ends_with_def
      succeeded_def dict_get_default_def dict_get_def extract_context_def dict_update_def
      generate_summary_def cyclic_history_def read_failure_def api_failure_def api_success_def
      nat_digits.simps str_int_def Let_def)

text \<open>
  In the cyclic plan the loop takes the free step and then the step that waits for it, whose
  in-degree it brings to zero; the two steps of the cycle keep the in-degree one and follow in
  the order of the plan. The run returns; the free step is reached first, in the initial
  state, and its pass makes two tool calls, which take the world from 0 to 2.
\<close>

theorem every_step_once_witness:
  "distinct (map step_id cyclic_plan)
   \<and> kahn_order cyclic_plan = [3, 2]
   \<and> resolve_dependencies cyclic_plan = [3, 2, 0, 1]
   \<and> 2 \<in> set (kahn_order cyclic_plan)
   \<and> 0 \<notin> set (kahn_order cyclic_plan)
   \<and> set (dependencies (cyclic_plan ! 2)) \<inter> set (map step_id cyclic_plan) \<subseteq> set [3]
   \<and> (\<exists>sm st st_b. execute_plan example_env 2 cyclic_plan [] 0 = Inr (sm, st)
          \<and> map step_id (sm_steps sm) = [0, 1, 2, 3]
          \<and> map status (sm_steps sm) = [Failed, Failed, Completed, Completed]
          \<and> new_records [] (sm_execution_history sm) = cyclic_history
          \<and> process_step example_env 2 3 (initial_state cyclic_plan [] 0) = Inr st_b
          \<and> run_order example_env 2 [2, 0, 1] st_b = Inr st
          \<and> st_history st_b = take 2 cyclic_history
          \<and> st_world st_b = 2
          \<and> st_world st = 3)"
proof -
  have d: "distinct (map step_id cyclic_plan)"
    by (simp add: cyclic_ids)
  have mem: "cyclic_plan ! 0 \<in> set cyclic_plan" "cyclic_plan ! 2 \<in> set cyclic_plan"
    "cyclic_plan ! 3 \<in> set cyclic_plan"
    by (simp_all add: cyclic_plan_def)
  have sel: "step_id (cyclic_plan ! 0) = 0" "dependencies (cyclic_plan ! 0) = [1]"
    "step_id (cyclic_plan ! 2) = 2" "dependencies (cyclic_plan ! 2) = [3]"
    "step_id (cyclic_plan ! 3) = 3" "dependencies (cyclic_plan ! 3) = []"
    by (simp_all add: cyclic_plan_def PlanStep_def)
  note t = every_step_once [OF d, of 2 example_env "[]" 0]
  from t have "resolve_dependencies cyclic_plan
      = kahn_order cyclic_plan @ filter (\<lambda>i. i \<notin> set (kahn_order cyclic_plan)) (map step_id cyclic_plan)"
    by (elim conjE)
  then have o: "resolve_dependencies cyclic_plan = [3, 2, 0, 1]"
    by (simp add: cyclic_kahn_order cyclic_ids)
  from t have taken: "\<forall>s \<in> set cyclic_plan.
             step_id s \<in> set (kahn_order cyclic_plan) \<longleftrightarrow>
               length (filter (\<lambda>d. d \<in> set (map step_id cyclic_plan)) (dependencies s))
                 = card (set (dependencies s) \<inter> set (kahn_order cyclic_plan))"
    by (elim conjE)
  from taken [THEN bspec, OF mem(2)] have k2: "2 \<in> set (kahn_order cyclic_plan)"
    by (simp add: sel cyclic_ids cyclic_kahn_order)
  from taken [THEN bspec, OF mem(1)] have k0: "0 \<notin> set (kahn_order cyclic_plan)"
    by (simp add: sel cyclic_ids cyclic_kahn_order)
  from t have before: "\<forall>s \<in> set cyclic_plan. \<forall>pre post.
        kahn_order cyclic_plan = pre @ step_id s # post
          \<longrightarrow> set (dependencies s) \<inter> set (map step_id cyclic_plan) \<subseteq> set pre"
    by (elim conjE)
  have "kahn_order cyclic_plan = [3] @ step_id (cyclic_plan ! 2) # []"
    by (simp add: sel cyclic_kahn_order)
  with before [THEN bspec, OF mem(2), THEN spec, THEN spec, THEN mp, of "[3]" "[]"]
  have b2: "set (dependencies (cyclic_plan ! 2)) \<inter> set (map step_id cyclic_plan) \<subseteq> set [3]"
    by blast
  have m: "(0::int) \<le> 2" by simp
  from t have "(0::int) \<le> 2 \<longrightarrow>
            (\<exists>sm st. execute_plan example_env 2 cyclic_plan [] 0 = Inr (sm, st)
               \<and> map step_id (sm_steps sm) = map step_id cyclic_plan
               \<and> new_records [] (sm_execution_history sm)
                   = concat (map (\<lambda>sid. run_records sid [] sm) (resolve_dependencies cyclic_plan))
               \<and> (\<forall>s \<in> set cyclic_plan. \<exists>pre post st_a st_b.
                     resolve_dependencies cyclic_plan = pre @ step_id s # post
                     \<and> run_order example_env 2 pre (initial_state cyclic_plan [] 0) = Inr st_a
                     \<and> process_step example_env 2 (step_id s) st_a = Inr st_b
                     \<and> run_order example_env 2 post st_b = Inr st
                     \<and> lookup_step (step_id s) (st_steps st_a) = Some s
                     \<and> st_history st_b = st_history st_a @ run_records (step_id s) [] sm
                     \<and> tool_calls example_env s (st_context st_a) (st_world st_a)
                          (run_records (step_id s) [] sm) (st_world st_b)
                     \<and> (\<forall>r \<in> set (run_records (step_id s) [] sm).
                           rec_step_id r = step_id s \<and> rec_tool r = tool s
                           \<and> rec_status r = outcome_status (rec_result r))
                     \<and> (if dependencies_satisfied s (st_steps st_a)
                        then run_records (step_id s) [] sm \<noteq> []
                           \<and> retry_shape (nat (1 + 2)) (run_records (step_id s) [] sm)
                           \<and> log_of (step_id s) (st_status_log st)
                               = concat (map (\<lambda>r. [InProgress, rec_status r])
                                           (run_records (step_id s) [] sm))
                           \<and> map_of (sm_results sm) (step_id s)
                               = Some (rec_result (last (run_records (step_id s) [] sm)))
                           \<and> lookup_step (step_id s) (sm_steps sm)
                               = Some (step_after (last (run_records (step_id s) [] sm)) s)
                        else run_records (step_id s) [] sm = []
                           \<and> log_of (step_id s) (st_status_log st) = [Failed]
                           \<and> map_of (sm_results sm) (step_id s) = Some dependency_failure
                           \<and> lookup_step (step_id s) (sm_steps sm)
                               = Some (s\<lparr>status := Failed\<rparr>))))"
    by (elim conjE)
  from this [THEN mp, OF m] obtain sm st where
    run: "execute_plan example_env 2 cyclic_plan [] 0 = Inr (sm, st)"
    and ids: "map step_id (sm_steps sm) = map step_id cyclic_plan"
    and pass: "\<forall>s \<in> set cyclic_plan. \<exists>pre post st_a st_b.
                     resolve_dependencies cyclic_plan = pre @ step_id s # post
                     \<and> run_order example_env 2 pre (initial_state cyclic_plan [] 0) = Inr st_a
                     \<and> process_step example_env 2 (step_id s) st_a = Inr st_b
                     \<and> run_order example_env 2 post st_b = Inr st
                     \<and> lookup_step (step_id s) (st_steps st_a) = Some s
                     \<and> st_history st_b = st_history st_a @ run_records (step_id s) [] sm
                     \<and> tool_calls example_env s (st_context st_a) (st_world st_a)
                          (run_records (step_id s) [] sm) (st_world st_b)
                     \<and> (\<forall>r \<in> set (run_records (step_id s) [] sm).
                           rec_step_id r = step_id s \<and> rec_tool r = tool s
                           \<and> rec_status r = outcome_status (rec_result r))
                     \<and> (if dependencies_satisfied s (st_steps st_a)
                        then run_records (step_id s) [] sm \<noteq> []
                           \<and> retry_shape (nat (1 + 2)) (run_records (step_id s) [] sm)
                           \<and> log_of (step_id s) (st_status_log st)
                               = concat (map (\<lambda>r. [InProgress, rec_status r])
                                           (run_records (step_id s) [] sm))
                           \<and> map_of (sm_results sm) (step_id s)
                               = Some (rec_result (last (run_records (step_id s) [] sm)))
                           \<and> lookup_step (step_id s) (sm_steps sm)
                               = Some (step_after (last (run_records (step_id s) [] sm)) s)
                        else run_records (step_id s) [] sm = []
                           \<and> log_of (step_id s) (st_status_log st) = [Failed]
                           \<and> map_of (sm_results sm) (step_id s) = Some dependency_failure
                           \<and> lookup_step (step_id s) (sm_steps sm)
                               = Some (s\<lparr>status := Failed\<rparr>))"
    by (elim exE conjE)
  from cyclic_run run have hist: "sm_execution_history sm = cyclic_history"
    and stat: "map status (sm_steps sm) = [Failed, Failed, Completed, Completed]"
    and w: "st_world st = 3"
    by auto
  have recs3: "run_records 3 [] sm = take 2 cyclic_history"
    by (simp add: run_records_def new_records_def recs_of_def hist cyclic_history_def)
  from pass [THEN bspec, OF mem(3)] obtain pre post st_a st_b where
    p: "resolve_dependencies cyclic_plan = pre @ 3 # post"
    and a: "run_order example_env 2 pre (initial_state cyclic_plan [] 0) = Inr st_a"
    and b: "process_step example_env 2 3 st_a = Inr st_b"
    and c: "run_order example_env 2 post st_b = Inr st"
    and h: "st_history st_b = st_history st_a @ run_records 3 [] sm"
    and tc: "tool_calls example_env (cyclic_plan ! 3) (st_context st_a) (st_world st_a)
                          (run_records 3 [] sm) (st_world st_b)"
    unfolding sel by (elim exE conjE)
  from p o have eq: "[] @ 3 # [2, 0, 1] = pre @ 3 # post" by simp
  have "distinct ([] @ (3::int) # [2, 0, 1])" by simp
  from split_unique [OF this eq] have pre: "pre = []" by simp
  with eq have post: "post = [2, 0, 1]" by simp
  from pre a have sa: "st_a = initial_state cyclic_plan [] 0" by simp
  from h have hb: "st_history st_b = take 2 cyclic_history"
    by (simp add: sa recs3)
  from tc have wb: "st_world st_b = 2"
    unfolding sa recs3
    by (simp add: cyclic_history_def cyclic_plan_def PlanStep_def example_env_def
        example_tools_def resolve_parameters_def resolve_value_def starts_with_def
        api_failure_def api_success_def numeral_2_eq_2)
  from run ids stat hist b c hb wb w sa post
  have "\<exists>sm st st_b. execute_plan example_env 2 cyclic_plan [] 0 = Inr (sm, st)
          \<and> map step_id (sm_steps sm) = [0, 1, 2, 3]
          \<and> map status (sm_steps sm) = [Failed, Failed, Completed, Completed]
          \<and> new_records [] (sm_execution_history sm) = cyclic_history
          \<and> process_step example_env 2 3 (initial_state cyclic_plan [] 0) = Inr st_b
          \<and> run_order example_env 2 [2, 0, 1] st_b = Inr st
          \<and> st_history st_b = take 2 cyclic_history
          \<and> st_world st_b = 2
          \<and> st_world st = 3"
    by (intro exI [of _ sm] exI [of _ st] exI [of _ st_b]) (simp add: cyclic_ids new_records_def)
  with d cyclic_kahn_order o k2 k0 b2 show ?thesis by (intro conjI)
qed

end
